theory Spec2Isabelle
  imports Main
begin

section \<open>Positions\<close>

text \<open>
  Modelled from the spec: the class \<open>Position\<close> lives in \<open>main_support\<close>, which is
  imported by \<open>main.py\<close> but is not part of the sources. The spec describes it as an
  immutable pair of signed integers, \<open>add\<close> as the coordinate-wise sum and \<open>distance\<close>
  as the Manhattan distance. Python integers are unbounded, hence \<open>int\<close>.
\<close>

type_synonym position = "int \<times> int"

definition Position_add :: "position \<Rightarrow> position \<Rightarrow> position" where
  "Position_add p q = (fst p + fst q, snd p + snd q)"

definition Position_distance :: "position \<Rightarrow> position \<Rightarrow> int" where
  "Position_distance p q = \<bar>fst p - fst q\<bar> + \<bar>snd p - snd q\<bar>"

section \<open>Entities\<close>

text \<open>
  The concrete classes of \<open>main.py\<close>. An entity value is a reference to an object: its
  class together with an address. None of the classes defines \<open>__eq__\<close>, so Python's
  \<open>==\<close>, \<open>!=\<close> and \<open>list.remove\<close> compare object identity, which is equality of
  references here. The mutable attributes of the objects live in the game state below.
\<close>

datatype cls =
    Player | Hospital | VulnerablePlayer | Zombie | TrackingZombie
  | Garlic | Crossbow | HoldingPlayer

datatype entity = Entity (cls_of: cls) (addr: nat)

text \<open>\<open>isinstance(e, Player)\<close>: \<open>VulnerablePlayer\<close> and \<open>HoldingPlayer\<close> inherit from \<open>Player\<close>.\<close>

fun isinstance_Player :: "entity \<Rightarrow> bool" where
  "isinstance_Player (Entity c a) = (c = Player \<or> c = VulnerablePlayer \<or> c = HoldingPlayer)"

text \<open>\<open>isinstance(e, Zombie)\<close>: \<open>TrackingZombie\<close> inherits from \<open>Zombie\<close>.\<close>

fun isinstance_Zombie :: "entity \<Rightarrow> bool" where
  "isinstance_Zombie (Entity c a) = (c = Zombie \<or> c = TrackingZombie)"

fun isinstance_TrackingZombie :: "entity \<Rightarrow> bool" where
  "isinstance_TrackingZombie (Entity c a) = (c = TrackingZombie)"

fun isinstance_Pickup :: "entity \<Rightarrow> bool" where
  "isinstance_Pickup (Entity c a) = (c = Garlic \<or> c = Crossbow)"

text \<open>
  Modelled from the spec: the display tags \<open>PLAYER\<close>, \<open>HOSPITAL\<close>, \<open>ZOMBIE\<close>,
  \<open>TRACKING_ZOMBIE\<close>, \<open>GARLIC\<close> and \<open>CROSSBOW\<close> are constants of \<open>main_support\<close>;
  the spec lists the tags as \<open>P\<close>, \<open>H\<close>, \<open>Z\<close>, \<open>T\<close>, \<open>G\<close> and \<open>C\<close>.
\<close>

definition PLAYER :: string where "PLAYER = ''P''"
definition HOSPITAL :: string where "HOSPITAL = ''H''"
definition ZOMBIE :: string where "ZOMBIE = ''Z''"
definition TRACKING_ZOMBIE :: string where "TRACKING_ZOMBIE = ''T''"
definition GARLIC :: string where "GARLIC = ''G''"
definition CROSSBOW :: string where "CROSSBOW = ''C''"

fun display :: "entity \<Rightarrow> string" where
  "display (Entity Player a) = PLAYER"
| "display (Entity VulnerablePlayer a) = PLAYER"
| "display (Entity HoldingPlayer a) = PLAYER"
| "display (Entity Hospital a) = HOSPITAL"
| "display (Entity Zombie a) = ZOMBIE"
| "display (Entity TrackingZombie a) = TRACKING_ZOMBIE"
| "display (Entity Garlic a) = GARLIC"
| "display (Entity Crossbow a) = CROSSBOW"

section \<open>Python containers\<close>

datatype error = AttributeError | ValueError

text \<open>
  A Python \<open>dict\<close> keeps its keys in insertion order: an association list with one
  entry per key. \<open>pop\<close> deletes the entry of a key, \<open>update\<close> overwrites the value of a
  key that is present in place and appends a new key at the end.
\<close>

fun dict_del :: "'k \<Rightarrow> ('k \<times> 'v) list \<Rightarrow> ('k \<times> 'v) list" where
  "dict_del k [] = []"
| "dict_del k (kv # d) = (if fst kv = k then d else kv # dict_del k d)"

fun dict_update :: "'k \<Rightarrow> 'v \<Rightarrow> ('k \<times> 'v) list \<Rightarrow> ('k \<times> 'v) list" where
  "dict_update k v [] = [(k, v)]"
| "dict_update k v (kv # d) = (if fst kv = k then (k, v) # d else kv # dict_update k v d)"

text \<open>\<open>list.remove(x)\<close> deletes the first occurrence and raises \<open>ValueError\<close> without one.\<close>

definition list_remove :: "'a \<Rightarrow> 'a list \<Rightarrow> error + 'a list" where
  "list_remove x xs = (if x \<in> set xs then Inr (remove1 x xs) else Inl ValueError)"

section \<open>Grid\<close>

record grid =
  size_grid :: int
  entities :: "entity list"
  EntityLocations :: "(position \<times> entity) list"

definition Grid :: "int \<Rightarrow> grid" where
  "Grid n = \<lparr>size_grid = n, entities = [], EntityLocations = []\<rparr>"

definition in_bounds :: "grid \<Rightarrow> position \<Rightarrow> bool" where
  "in_bounds g p =
     (if 0 \<le> fst p \<and> fst p < size_grid g \<and> 0 \<le> snd p \<and> snd p < size_grid g
      then True else False)"

definition add_entity :: "grid \<Rightarrow> position \<Rightarrow> entity \<Rightarrow> error + grid" where
  "add_entity g p e =
     (if in_bounds g p = False then Inr g
      else
        let entity_removed = map_of (EntityLocations g) p;
            locs = dict_del p (EntityLocations g)
        in case entity_removed of
             None \<Rightarrow>
               Inr (g\<lparr>entities := entities g @ [e], EntityLocations := dict_update p e locs\<rparr>)
           | Some r \<Rightarrow>
               (case list_remove r (entities g) of
                  Inl err \<Rightarrow> Inl err
                | Inr es \<Rightarrow>
                    Inr (g\<lparr>entities := es @ [e], EntityLocations := dict_update p e locs\<rparr>)))"

definition remove_entity :: "grid \<Rightarrow> position \<Rightarrow> error + grid" where
  "remove_entity g p =
     (if in_bounds g p = False then Inr g
      else
        let entity_at_position = map_of (EntityLocations g) p;
            locs = dict_del p (EntityLocations g)
        in case entity_at_position of
             None \<Rightarrow> Inr (g\<lparr>EntityLocations := locs\<rparr>)
           | Some r \<Rightarrow>
               (case list_remove r (entities g) of
                  Inl err \<Rightarrow> Inl err
                | Inr es \<Rightarrow> Inr (g\<lparr>entities := es, EntityLocations := locs\<rparr>)))"

definition get_entity :: "grid \<Rightarrow> position \<Rightarrow> entity option" where
  "get_entity g p =
     (if in_bounds g p = False then None else map_of (EntityLocations g) p)"

text \<open>
  \<open>get_mapping\<close> builds a fresh dictionary keyed by \<open>Position\<close> objects, one \<open>update\<close>
  per entry of \<open>EntityLocations\<close>, in the order of that dictionary.
\<close>

definition get_mapping :: "grid \<Rightarrow> (position \<times> entity) list" where
  "get_mapping g = foldl (\<lambda>d kv. dict_update (fst kv) (snd kv) d) [] (EntityLocations g)"

definition get_entities :: "grid \<Rightarrow> entity list" where
  "get_entities g = entities g"

definition move_entity :: "grid \<Rightarrow> position \<Rightarrow> position \<Rightarrow> error + grid" where
  "move_entity g start end =
     (if in_bounds g start = False \<or> in_bounds g end = False then Inr g
      else
        let entity_at_start = map_of (EntityLocations g) start;
            g1 = g\<lparr>EntityLocations := dict_del start (EntityLocations g)\<rparr>
        in case entity_at_start of
             None \<Rightarrow> Inr g1
           | Some x \<Rightarrow>
               (case remove_entity g1 end of
                  Inl err \<Rightarrow> Inl err
                | Inr g2 \<Rightarrow>
                    Inr (g2\<lparr>EntityLocations := dict_update end x (EntityLocations g2)\<rparr>)))"

fun find_player_loop :: "(position \<times> entity) list \<Rightarrow> position option" where
  "find_player_loop [] = None"
| "find_player_loop (kv # d) =
     (if isinstance_Player (snd kv) then Some (fst kv) else find_player_loop d)"

definition find_player :: "grid \<Rightarrow> position option" where
  "find_player g = find_player_loop (EntityLocations g)"

definition serialize :: "grid \<Rightarrow> (position \<times> string) list" where
  "serialize g =
     foldl (\<lambda>d kv. dict_update (fst kv) (display (snd kv)) d) [] (EntityLocations g)"

subsection \<open>Well-formed grids\<close>

text \<open>
  \<open>dict_ok\<close>: \<open>EntityLocations\<close> is a dictionary (one entry per key) whose keys are in
  bounds. \<open>consistent\<close>: the invariant of the data model, every entity of the mapping
  appears exactly once in the list \<open>entities\<close>, and every entity of the list occupies
  exactly one position of the mapping.
\<close>

definition dict_ok :: "grid \<Rightarrow> bool" where
  "dict_ok g \<longleftrightarrow>
     distinct (map fst (EntityLocations g)) \<and>
     list_all (in_bounds g) (map fst (EntityLocations g))"

definition consistent :: "grid \<Rightarrow> bool" where
  "consistent g \<longleftrightarrow>
     distinct (entities g) \<and>
     distinct (map snd (EntityLocations g)) \<and>
     set (entities g) = set (map snd (EntityLocations g))"


section \<open>Game state\<close>

text \<open>
  The game owns the grid and the step counter. The mutable attributes of the entity
  objects are kept per attribute, indexed by the object: \<open>infected\<close> of a
  \<open>VulnerablePlayer\<close>, the \<open>items\<close> list of the \<open>Inventory\<close> that a \<open>HoldingPlayer\<close>
  creates for itself in its constructor, and \<open>remaining_steps\<close> of a \<open>Pickup\<close>.
  \<open>random_source\<close> holds the results that the coming calls of \<open>random_directions()\<close>
  (a function of \<open>main_support\<close>) will return, the next one at index 0.
\<close>

record game =
  grid :: grid
  no_steps :: int
  infected :: "entity \<Rightarrow> bool"
  inventory :: "entity \<Rightarrow> entity list"
  remaining_steps :: "entity \<Rightarrow> int"
  random_source :: "nat \<Rightarrow> position list"

definition get_player :: "game \<Rightarrow> entity option" where
  "get_player g =
     (case find_player (grid g) of
        None \<Rightarrow> None
      | Some player_position \<Rightarrow> get_entity (grid g) player_position)"

section \<open>Inventory\<close>

text \<open>
  \<open>Inventory.step\<close> is a \<open>for\<close> loop over the list it mutates. Python's list iterator
  keeps an index, reads \<open>items[i]\<close> while \<open>i < len(items)\<close> holds for the current list
  and then advances, whatever the body did to the list. \<open>hold\<close> exists on \<open>Pickup\<close>
  only, so another object in the list raises \<open>AttributeError\<close>. \<open>items.remove(item)\<close>
  cannot fail, \<open>item\<close> was just read from the list.
\<close>

function Inventory_step_loop ::
  "nat \<Rightarrow> entity list \<Rightarrow> (entity \<Rightarrow> int) \<Rightarrow> error + (entity list \<times> (entity \<Rightarrow> int))" where
  "Inventory_step_loop i items rs =
     (if i < length items then
        (if \<not> isinstance_Pickup (items ! i) then Inl AttributeError
         else if (rs (items ! i) - 1) \<le> 0
           then Inventory_step_loop (Suc i) (remove1 (items ! i) items)
                  (rs((items ! i) := rs (items ! i) - 1))
           else Inventory_step_loop (Suc i) items (rs((items ! i) := rs (items ! i) - 1)))
      else Inr (items, rs))"
  by pat_completeness auto
termination
  by (relation "measure (\<lambda>(i, items, rs). length items - i)")
     (auto simp: length_remove1)

declare Inventory_step_loop.simps [simp del]

definition Inventory_step :: "entity \<Rightarrow> game \<Rightarrow> error + game" where
  "Inventory_step owner g =
     (case Inventory_step_loop 0 (inventory g owner) (remaining_steps g) of
        Inl err \<Rightarrow> Inl err
      | Inr (items, rs) \<Rightarrow>
          Inr (g\<lparr>inventory := (inventory g)(owner := items), remaining_steps := rs\<rparr>))"

definition add_item :: "entity \<Rightarrow> entity \<Rightarrow> game \<Rightarrow> game" where
  "add_item owner item g = g\<lparr>inventory := (inventory g)(owner := inventory g owner @ [item])\<rparr>"

fun contains :: "entity list \<Rightarrow> string \<Rightarrow> bool" where
  "contains [] pickup_id = False"
| "contains (item # items) pickup_id =
     (if pickup_id = display item then True else contains items pickup_id)"

section \<open>Players\<close>

text \<open>
  \<open>infect\<close> is defined by \<open>VulnerablePlayer\<close> and overridden by \<open>HoldingPlayer\<close>; the
  base class \<open>Player\<close> and the other entities have no such method.
\<close>

definition infect :: "entity \<Rightarrow> game \<Rightarrow> error + game" where
  "infect e g =
     (case cls_of e of
        VulnerablePlayer \<Rightarrow> Inr (g\<lparr>infected := (infected g)(e := True)\<rparr>)
      | HoldingPlayer \<Rightarrow>
          (if contains (inventory g e) GARLIC then Inr g
           else Inr (g\<lparr>infected := (infected g)(e := True)\<rparr>))
      | _ \<Rightarrow> Inl AttributeError)"

definition is_infected :: "entity \<Rightarrow> game \<Rightarrow> bool" where
  "is_infected e g = infected g e"

section \<open>Zombies\<close>

text \<open>
  \<open>Zombie.step\<close> and \<open>TrackingZombie.step\<close> end in the same loop over a list of
  offsets, written out twice in the source; \<open>Zombie_step_loop\<close> is that loop.
  \<open>game.get_player().infect()\<close> raises \<open>AttributeError\<close> when \<open>get_player\<close> is \<open>None\<close>.
\<close>

fun Zombie_step_loop :: "position list \<Rightarrow> position \<Rightarrow> game \<Rightarrow> error + game" where
  "Zombie_step_loop [] position g = Inr g"
| "Zombie_step_loop (direction # rest) position g =
     (let final_position = Position_add position direction in
      if in_bounds (grid g) final_position = False then Zombie_step_loop rest position g
      else
        (case get_entity (grid g) final_position of
           None \<Rightarrow>
             (case move_entity (grid g) position final_position of
                Inl err \<Rightarrow> Inl err
              | Inr gr \<Rightarrow> Inr (g\<lparr>grid := gr\<rparr>))
         | Some e \<Rightarrow>
             if isinstance_Player e then
               (case get_player g of
                  None \<Rightarrow> Inl AttributeError
                | Some player \<Rightarrow> infect player g)
             else Zombie_step_loop rest position g))"

text \<open>\<open>rnd_directions\<close> is the list that \<open>random_directions()\<close> returned for this call.\<close>

definition Zombie_step :: "position list \<Rightarrow> position \<Rightarrow> game \<Rightarrow> error + game" where
  "Zombie_step rnd_directions position g = Zombie_step_loop rnd_directions position g"

definition offsets_list :: "position list" where
  "offsets_list = [(0, 1), (0, -1), (1, 0), (-1, 0)]"

definition directions_list :: "char list" where
  "directions_list = [CHR ''S'', CHR ''N'', CHR ''E'', CHR ''W'']"

text \<open>
  \<open>sorted(compressed_list, key=lambda x: (-x[1], x[2]))\<close>: Python compares the key
  tuples lexicographically, the one-character strings by code point, and its sort is
  stable. \<open>sorted_compressed\<close> is the stable insertion sort for that order.
\<close>

type_synonym candidate = "position \<times> int \<times> char"

definition key_le :: "candidate \<Rightarrow> candidate \<Rightarrow> bool" where
  "key_le a b \<longleftrightarrow>
     - fst (snd a) < - fst (snd b) \<or>
     (- fst (snd a) = - fst (snd b) \<and> (of_char (snd (snd a)) :: nat) \<le> of_char (snd (snd b)))"

fun insort_compressed :: "candidate \<Rightarrow> candidate list \<Rightarrow> candidate list" where
  "insort_compressed x [] = [x]"
| "insort_compressed x (y # ys) =
     (if key_le x y then x # y # ys else y # insort_compressed x ys)"

definition sorted_compressed :: "candidate list \<Rightarrow> candidate list" where
  "sorted_compressed xs = foldr insort_compressed xs []"

definition compressed_list :: "position \<Rightarrow> position \<Rightarrow> candidate list" where
  "compressed_list player_position position =
     (let distances_list =
            map (\<lambda>offset. Position_distance player_position (Position_add offset position))
              offsets_list
      in rev (sorted_compressed (zip offsets_list (zip distances_list directions_list))))"

text \<open>\<open>player_position.distance\<close> raises \<open>AttributeError\<close> when \<open>find_player\<close> is \<open>None\<close>.\<close>

definition TrackingZombie_step :: "position \<Rightarrow> game \<Rightarrow> error + game" where
  "TrackingZombie_step position g =
     (case find_player (grid g) of
        None \<Rightarrow> Inl AttributeError
      | Some player_position \<Rightarrow>
          Zombie_step_loop (map fst (compressed_list player_position position)) position g)"

section \<open>Game.step\<close>

text \<open>
  The \<open>step\<close> method that an entity's class provides: \<open>HoldingPlayer\<close>, \<open>Zombie\<close> and
  \<open>TrackingZombie\<close> override \<open>Entity.step\<close>, which does nothing. A \<open>Zombie\<close> draws the
  next result of \<open>random_directions()\<close>.
\<close>

definition entity_step :: "entity \<Rightarrow> position \<Rightarrow> game \<Rightarrow> error + game" where
  "entity_step e position g =
     (case cls_of e of
        HoldingPlayer \<Rightarrow> Inventory_step e g
      | Zombie \<Rightarrow>
          Zombie_step (random_source g 0) position
            (g\<lparr>random_source := (\<lambda>n. random_source g (Suc n))\<rparr>)
      | TrackingZombie \<Rightarrow> TrackingZombie_step position g
      | _ \<Rightarrow> Inr g)"

text \<open>
  The loop of \<open>Game.step\<close> over the items of the dictionary that \<open>get_mapping\<close>
  returned. Next to the outcome it returns, in order, the calls \<open>value.step(key, self)\<close>
  that it made; an exception ends the loop at the call that raised it.
\<close>

fun Game_step_loop ::
  "(position \<times> entity) list \<Rightarrow> game \<Rightarrow> (position \<times> entity) list \<times> (error + game)" where
  "Game_step_loop [] g = ([], Inr g)"
| "Game_step_loop (kv # rest) g =
     (case entity_step (snd kv) (fst kv) g of
        Inl err \<Rightarrow> ([kv], Inl err)
      | Inr g' \<Rightarrow> (kv # fst (Game_step_loop rest g'), snd (Game_step_loop rest g')))"

definition Game_step_calls :: "game \<Rightarrow> (position \<times> entity) list" where
  "Game_step_calls g =
     fst (Game_step_loop (get_mapping (grid g)) (g\<lparr>no_steps := no_steps g + 1\<rparr>))"

definition Game_step :: "game \<Rightarrow> error + game" where
  "Game_step g =
     snd (Game_step_loop (get_mapping (grid g)) (g\<lparr>no_steps := no_steps g + 1\<rparr>))"


section \<open>The fire action\<close>

text \<open>
  Modelled from the spec: the action tokens \<open>UP\<close>, \<open>DOWN\<close>, \<open>LEFT\<close>, \<open>RIGHT\<close>, \<open>FIRE\<close>
  and the tuple \<open>DIRECTIONS\<close> are constants of \<open>main_support\<close>. The docstrings of
  \<open>direction_to_offset\<close> and \<open>handle_action\<close> give them as \<open>W\<close>, \<open>S\<close>, \<open>A\<close>, \<open>D\<close>, \<open>F\<close>
  and the four directions \<open>W\<close>, \<open>A\<close>, \<open>S\<close>, \<open>D\<close>.
\<close>

definition UP :: string where "UP = ''W''"
definition DOWN :: string where "DOWN = ''S''"
definition LEFT :: string where "LEFT = ''A''"
definition RIGHT :: string where "RIGHT = ''D''"
definition FIRE :: string where "FIRE = ''F''"
definition DIRECTIONS :: "string list" where "DIRECTIONS = [UP, LEFT, DOWN, RIGHT]"

definition direction_to_offset :: "string \<Rightarrow> position option" where
  "direction_to_offset direction =
     (if direction = UP then Some (0, -1)
      else if direction = DOWN then Some (0, 1)
      else if direction = LEFT then Some (-1, 0)
      else if direction = RIGHT then Some (1, 0)
      else None)"

datatype message = NO_ZOMBIE_MESSAGE | NO_WEAPON_MESSAGE | INVALID_FIRING_MESSAGE

text \<open>
  The \<open>while True\<close> loop of the fire action, from the position reached so far. It
  returns the grid and the messages printed. \<open>current_position.add(offset)\<close> raises
  \<open>AttributeError\<close> for the offset \<open>None\<close>. The loop ends because every round moves
  one cell along a unit offset and stops outside the bounds.
\<close>

function fire_loop :: "grid \<Rightarrow> string \<Rightarrow> position \<Rightarrow> error + (grid \<times> message list)" where
  "fire_loop gr fire_direction current_position =
     (case direction_to_offset fire_direction of
        None \<Rightarrow> Inl AttributeError
      | Some offset \<Rightarrow>
          if in_bounds gr (Position_add current_position offset) = False
          then Inr (gr, [NO_ZOMBIE_MESSAGE])
          else
            (case get_entity gr (Position_add current_position offset) of
               None \<Rightarrow> fire_loop gr fire_direction (Position_add current_position offset)
             | Some e \<Rightarrow>
                 if isinstance_Zombie e \<or> isinstance_TrackingZombie e then
                   (case remove_entity gr (Position_add current_position offset) of
                      Inl err \<Rightarrow> Inl err
                    | Inr gr' \<Rightarrow> Inr (gr', []))
                 else Inr (gr, [NO_ZOMBIE_MESSAGE])))"
  by pat_completeness auto
termination
  by (relation "measure (\<lambda>(gr, d, p).
        case direction_to_offset d of
          None \<Rightarrow> 0
        | Some off \<Rightarrow>
            nat (if fst off = 1 then size_grid gr - fst p
                 else if fst off = -1 then fst p + 1
                 else if snd off = 1 then size_grid gr - snd p
                 else snd p + 1))")
     (auto simp: direction_to_offset_def in_bounds_def Position_add_def split: if_splits)

declare fire_loop.simps [simp del]

text \<open>
  The branch \<open>action == FIRE\<close> of \<open>AdvancedTextInterface.handle_action\<close> up to, and
  without, the closing call of \<open>game.step()\<close>. \<open>fire_direction\<close> is what \<open>input\<close>
  returns when the player holds a crossbow. The method starts by reading the player's
  position and inventory: without a player, or with a player that has no
  \<open>get_inventory\<close>, that raises \<open>AttributeError\<close>.
\<close>

definition fire_resolution :: "game \<Rightarrow> string \<Rightarrow> error + (game \<times> message list)" where
  "fire_resolution g fire_direction =
     (case get_player g of
        None \<Rightarrow> Inl AttributeError
      | Some player \<Rightarrow>
          if cls_of player \<noteq> HoldingPlayer then Inl AttributeError
          else if contains (inventory g player) CROSSBOW = True then
            (if fire_direction \<notin> set DIRECTIONS then Inr (g, [INVALID_FIRING_MESSAGE])
             else
               (case find_player (grid g) of
                  None \<Rightarrow> Inl AttributeError
                | Some current_position \<Rightarrow>
                    (case fire_loop (grid g) fire_direction current_position of
                       Inl err \<Rightarrow> Inl err
                     | Inr (gr, printed) \<Rightarrow> Inr (g\<lparr>grid := gr\<rparr>, printed))))
          else Inr (g, [NO_WEAPON_MESSAGE]))"

definition handle_action_fire :: "game \<Rightarrow> string \<Rightarrow> error + (game \<times> message list)" where
  "handle_action_fire g fire_direction =
     (case fire_resolution g fire_direction of
        Inl err \<Rightarrow> Inl err
      | Inr (g', printed) \<Rightarrow>
          (case Game_step g' of Inl err \<Rightarrow> Inl err | Inr g'' \<Rightarrow> Inr (g'', printed)))"

section \<open>Example states\<close>

text \<open>Objects used in the examples.\<close>

definition holder :: entity where "holder = Entity HoldingPlayer 0"
definition garlic1 :: entity where "garlic1 = Entity Garlic 1"
definition crossbow2 :: entity where "crossbow2 = Entity Crossbow 2"
definition zombie3 :: entity where "zombie3 = Entity Zombie 3"
definition tracker4 :: entity where "tracker4 = Entity TrackingZombie 4"
definition hospital5 :: entity where "hospital5 = Entity Hospital 5"
definition player6 :: entity where "player6 = Entity Player 6"
definition player7 :: entity where "player7 = Entity VulnerablePlayer 7"

text \<open>
  A game on an empty 3 x 3 grid whose player object holds a garlic with one step left
  and a fresh crossbow, and the same game with the garlic taken out of the inventory.
\<close>

definition game_garlic :: game where
  "game_garlic =
     \<lparr>grid = Grid 3, no_steps = 0, infected = (\<lambda>e. False),
      inventory = (\<lambda>e. if e = holder then [garlic1, crossbow2] else []),
      remaining_steps = (\<lambda>e. if e = garlic1 then 1 else if e = crossbow2 then 5 else 0),
      random_source = (\<lambda>n. offsets_list)\<rparr>"

definition game_no_garlic :: game where
  "game_no_garlic = game_garlic\<lparr>inventory := (\<lambda>e. if e = holder then [crossbow2] else [])\<rparr>"

text \<open>
  A 3 x 3 grid with the player at (0,0) and a zombie east of it at (1,0), and a grid
  with two player objects, before and after the first one has moved.
\<close>

definition grid_pz :: grid where
  "grid_pz =
     \<lparr>size_grid = 3, entities = [holder, zombie3],
      EntityLocations = [((0, 0), holder), ((1, 0), zombie3)]\<rparr>"

definition grid_two :: grid where
  "grid_two =
     \<lparr>size_grid = 3, entities = [player6, player7],
      EntityLocations = [((0, 0), player6), ((1, 1), player7)]\<rparr>"

definition grid_two_moved :: grid where
  "grid_two_moved =
     \<lparr>size_grid = 3, entities = [player6, player7],
      EntityLocations = [((1, 1), player7), ((0, 1), player6)]\<rparr>"

section \<open>The spec's reading of find_player\<close>

text \<open>
  The spec has \<open>find_player\<close> scan the occupants in the order of the ordered
  collection, the list \<open>entities\<close>, and return the position of the first player.
\<close>

definition position_of :: "grid \<Rightarrow> entity \<Rightarrow> position option" where
  "position_of g e = map_option fst (find (\<lambda>kv. snd kv = e) (EntityLocations g))"

definition find_player_spec :: "grid \<Rightarrow> position option" where
  "find_player_spec g =
     (case find isinstance_Player (entities g) of
        None \<Rightarrow> None
      | Some e \<Rightarrow> position_of g e)"

text \<open>The grid \<open>grid_pz\<close> after the player object has been added again at (2,2).\<close>

definition grid_pz_readded :: grid where
  "grid_pz_readded =
     \<lparr>size_grid = 3, entities = [holder, zombie3, holder],
      EntityLocations = [((0, 0), holder), ((1, 0), zombie3), ((2, 2), holder)]\<rparr>"

section \<open>The spec's reading of a zombie's walk over its candidates\<close>

text \<open>
  The spec's rule for a list of candidate offsets: out-of-bounds destinations and
  destinations occupied by something that is not a player are passed over; the first
  remaining candidate decides. An empty destination makes the zombie move there, a
  player there has its \<open>infect\<close> invoked; without a deciding candidate nothing happens.
\<close>

definition decisive :: "game \<Rightarrow> position \<Rightarrow> position \<Rightarrow> bool" where
  "decisive g position d \<longleftrightarrow>
     in_bounds (grid g) (Position_add position d) \<and>
     (case get_entity (grid g) (Position_add position d) of
        None \<Rightarrow> True
      | Some e \<Rightarrow> isinstance_Player e)"

definition wander_spec :: "position list \<Rightarrow> position \<Rightarrow> game \<Rightarrow> error + game" where
  "wander_spec candidates position g =
     (case find (decisive g position) candidates of
        None \<Rightarrow> Inr g
      | Some d \<Rightarrow>
          (case get_entity (grid g) (Position_add position d) of
             None \<Rightarrow>
               (case move_entity (grid g) position (Position_add position d) of
                  Inl err \<Rightarrow> Inl err
                | Inr gr \<Rightarrow> Inr (g\<lparr>grid := gr\<rparr>))
           | Some e \<Rightarrow>
               (case get_player g of
                  None \<Rightarrow> Inl AttributeError
                | Some player \<Rightarrow> infect player g)))"

text \<open>
  The spec's order of the candidates of a tracking zombie: the compass rank of an
  offset (West, South, North, East) and the comparison by distance first, rank second.
\<close>

definition compass_rank :: "position \<Rightarrow> nat" where
  "compass_rank d =
     (if d = (-1, 0) then 0 else if d = (0, 1) then 1 else if d = (0, -1) then 2 else 3)"

definition tracking_le :: "position \<Rightarrow> position \<Rightarrow> position \<Rightarrow> position \<Rightarrow> bool" where
  "tracking_le player_position position a b \<longleftrightarrow>
     Position_distance player_position (Position_add position a)
       < Position_distance player_position (Position_add position b) \<or>
     (Position_distance player_position (Position_add position a)
        = Position_distance player_position (Position_add position b) \<and>
      compass_rank a \<le> compass_rank b)"

text \<open>Every player object in the grid has an \<open>infect\<close> method.\<close>

definition players_infectable :: "grid \<Rightarrow> bool" where
  "players_infectable gr \<longleftrightarrow>
     list_all (\<lambda>kv. isinstance_Player (snd kv) \<longrightarrow> cls_of (snd kv) \<noteq> Player)
       (EntityLocations gr)"


text \<open>
  A 5 x 5 game with the player at (2,4) and a tracking zombie at (1,1), and a 3 x 3 game
  on \<open>grid_pz\<close>.
\<close>

definition grid_track :: grid where
  "grid_track =
     \<lparr>size_grid = 5, entities = [holder, tracker4],
      EntityLocations = [((2, 4), holder), ((1, 1), tracker4)]\<rparr>"

definition game_track :: game where
  "game_track = game_garlic\<lparr>grid := grid_track\<rparr>"

definition game_pz :: game where
  "game_pz = game_no_garlic\<lparr>grid := grid_pz\<rparr>"

section \<open>Well-formed games\<close>

text \<open>
  The states that the loaders and the game's own moves produce: a well-formed grid with
  a player (the precondition of \<open>Game\<close>), every player of a class that has \<open>infect\<close>,
  and only pickups in the inventories.
\<close>

definition inventories_ok :: "game \<Rightarrow> bool" where
  "inventories_ok g \<longleftrightarrow> (\<forall>e. list_all isinstance_Pickup (inventory g e))"

definition game_ok :: "game \<Rightarrow> bool" where
  "game_ok g \<longleftrightarrow>
     dict_ok (grid g) \<and> consistent (grid g) \<and> players_infectable (grid g) \<and>
     find_player (grid g) \<noteq> None \<and> inventories_ok g"

section \<open>The spec's reading of the line of fire\<close>

text \<open>
  Walking cell by cell from \<open>p\<close> along \<open>off\<close>: \<open>cell p off k\<close> is the cell reached after
  \<open>k\<close> steps, \<open>clear_path gr p off n\<close> says that the first \<open>n\<close> cells after \<open>p\<close> are in
  bounds and empty, and \<open>first_hit gr p off n e\<close> that the first non-empty cell met
  before leaving the grid comes right after them and holds \<open>e\<close>.
\<close>

fun cell :: "position \<Rightarrow> position \<Rightarrow> nat \<Rightarrow> position" where
  "cell p off 0 = p"
| "cell p off (Suc k) = cell (Position_add p off) off k"

fun clear_path :: "grid \<Rightarrow> position \<Rightarrow> position \<Rightarrow> nat \<Rightarrow> bool" where
  "clear_path gr p off 0 = True"
| "clear_path gr p off (Suc n) =
     (in_bounds gr (Position_add p off) \<and> get_entity gr (Position_add p off) = None \<and>
      clear_path gr (Position_add p off) off n)"

definition first_hit :: "grid \<Rightarrow> position \<Rightarrow> position \<Rightarrow> nat \<Rightarrow> entity \<Rightarrow> bool" where
  "first_hit gr p off n e \<longleftrightarrow>
     clear_path gr p off n \<and> in_bounds gr (cell p off (Suc n)) \<and>
     get_entity gr (cell p off (Suc n)) = Some e"

text \<open>
  A 5 x 5 game whose player stands at (0,0) holding a crossbow, with a zombie three
  cells to the east at (3,0) and a hospital two cells to the south at (0,2).
\<close>

definition grid_fire :: grid where
  "grid_fire =
     \<lparr>size_grid = 5, entities = [holder, zombie3, hospital5],
      EntityLocations = [((0, 0), holder), ((3, 0), zombie3), ((0, 2), hospital5)]\<rparr>"

definition game_fire :: game where
  "game_fire = game_garlic\<lparr>grid := grid_fire\<rparr>"

section \<open>The spec's reading of a turn\<close>

text \<open>
  One more entry of the snapshot: unless an exception has ended the turn, the per-turn
  behaviour of the entity is invoked with the position that the snapshot records.
\<close>

definition invoke_next :: "error + game \<Rightarrow> position \<times> entity \<Rightarrow> error + game" where
  "invoke_next r kv =
     (case r of Inl err \<Rightarrow> Inl err | Inr s \<Rightarrow> entity_step (snd kv) (fst kv) s)"

section \<open>Lemmas about the containers and the grid\<close>

lemma dict_del_filter:
  "distinct (map fst d) \<Longrightarrow> dict_del k d = filter (\<lambda>kv. fst kv \<noteq> k) d"
proof (induction d)
  case Nil
  then show ?case by simp
next
  case (Cons kv d)
  have "fst kv = k \<Longrightarrow> filter (\<lambda>kv. fst kv \<noteq> k) d = d"
    using Cons.prems by (force simp: filter_id_conv image_iff)
  with Cons show ?case by auto
qed

lemma dict_update_fresh:
  "k \<notin> fst ` set d \<Longrightarrow> dict_update k v d = d @ [(k, v)]"
  by (induction d) auto

lemma map_of_filter_neq:
  "map_of (filter (\<lambda>kv. fst kv \<noteq> k) d) q = (if q = k then None else map_of d q)"
  by (induction d) auto

lemma map_of_snoc:
  "map_of (d @ [(k, v)]) q = (case map_of d q of Some w \<Rightarrow> Some w | None \<Rightarrow> if q = k then Some v else None)"
  by (induction d) auto

lemma values_filter_key:
  assumes "distinct (map fst d)" "distinct (map snd d)" "map_of d k = Some r"
  shows "set (map snd (filter (\<lambda>kv. fst kv \<noteq> k) d)) = set (map snd d) - {r}"
proof -
  have kr: "(k, r) \<in> set d" using assms(3) by (rule map_of_SomeD)
  have a: "b = r" if "(k, b) \<in> set d" for b
    using assms(1) assms(3) that by (metis map_of_is_SomeI option.inject)
  have b: "a = k" if "(a, r) \<in> set d" for a
  proof -
    have "inj_on snd (set d)" using assms(2) by (simp add: distinct_map)
    from inj_onD[OF this, of "(a, r)" "(k, r)"] that kr show ?thesis by simp
  qed
  show ?thesis
  proof (rule set_eqI)
    fix y
    show "y \<in> set (map snd (filter (\<lambda>kv. fst kv \<noteq> k) d)) \<longleftrightarrow> y \<in> set (map snd d) - {r}"
    proof
      assume "y \<in> set (map snd (filter (\<lambda>kv. fst kv \<noteq> k) d))"
      then obtain a where "(a, y) \<in> set d" "a \<noteq> k" by auto
      then show "y \<in> set (map snd d) - {r}" using b by force
    next
      assume "y \<in> set (map snd d) - {r}"
      then obtain a where "(a, y) \<in> set d" "y \<noteq> r" by auto
      then have "a \<noteq> k" using a by blast
      then show "y \<in> set (map snd (filter (\<lambda>kv. fst kv \<noteq> k) d))"
        using \<open>(a, y) \<in> set d\<close> by force
    qed
  qed
qed

lemma get_mapping_id:
  "distinct (map fst (EntityLocations g)) \<Longrightarrow> get_mapping g = EntityLocations g"
proof -
  have "\<And>acc. distinct (map fst (acc @ d)) \<Longrightarrow>
          foldl (\<lambda>d kv. dict_update (fst kv) (snd kv) d) acc d = acc @ d" for d :: "(position \<times> entity) list"
  proof (induction d)
    case Nil
    then show ?case by simp
  next
    case (Cons kv d)
    have "fst kv \<notin> fst ` set acc" using Cons.prems by auto
    then have "dict_update (fst kv) (snd kv) acc = acc @ [kv]"
      by (simp add: dict_update_fresh)
    moreover have "distinct (map fst ((acc @ [kv]) @ d))" using Cons.prems by simp
    ultimately show ?case using Cons.IH[of "acc @ [kv]"] by simp
  qed
  from this[of "[]" "EntityLocations g"] show "distinct (map fst (EntityLocations g)) \<Longrightarrow> ?thesis"
    by (simp add: get_mapping_def)
qed


lemma filter_key_absent:
  "map_of d k = None \<Longrightarrow> filter (\<lambda>kv. fst kv \<noteq> k) d = d"
  by (induction d) (auto split: if_splits)

lemma remove_entity_eq:
  assumes "distinct (map fst (EntityLocations g))"
    and "set (map snd (EntityLocations g)) \<subseteq> set (entities g)"
  shows "remove_entity g p =
           Inr (case get_entity g p of
                  None \<Rightarrow> g
                | Some r \<Rightarrow> g\<lparr>entities := remove1 r (entities g),
                       EntityLocations := filter (\<lambda>kv. fst kv \<noteq> p) (EntityLocations g)\<rparr>)"
proof (cases "in_bounds g p")
  case False
  then show ?thesis by (simp add: remove_entity_def get_entity_def)
next
  case True
  show ?thesis
  proof (cases "map_of (EntityLocations g) p")
    case None
    then show ?thesis using True assms(1)
      by (simp add: remove_entity_def get_entity_def dict_del_filter filter_key_absent)
  next
    case (Some r)
    then have "(p, r) \<in> set (EntityLocations g)" by (rule map_of_SomeD)
    then have "r \<in> set (entities g)" using assms(2) by force
    then show ?thesis using True Some assms(1)
      by (simp add: remove_entity_def get_entity_def dict_del_filter list_remove_def)
  qed
qed

lemma move_entity_eq:
  assumes dk: "distinct (map fst (EntityLocations g))"
    and sub: "set (map snd (EntityLocations g)) \<subseteq> set (entities g)"
    and ib: "in_bounds g s" "in_bounds g t"
    and at: "map_of (EntityLocations g) s = Some x"
  shows "move_entity g s t =
           Inr (g\<lparr>entities :=
                    (case (if t = s then None else map_of (EntityLocations g) t) of
                       None \<Rightarrow> entities g
                     | Some y \<Rightarrow> remove1 y (entities g)),
                  EntityLocations :=
                    filter (\<lambda>kv. fst kv \<noteq> s \<and> fst kv \<noteq> t) (EntityLocations g) @ [(t, x)]\<rparr>)"
proof -
  let ?d1 = "filter (\<lambda>kv. fst kv \<noteq> s) (EntityLocations g)"
  let ?g1 = "g\<lparr>EntityLocations := ?d1\<rparr>"
  have d1: "distinct (map fst (EntityLocations ?g1))"
    using dk by (simp add: distinct_map_filter)
  have s1: "set (map snd (EntityLocations ?g1)) \<subseteq> set (entities ?g1)"
    using sub by auto
  have ib1: "in_bounds ?g1 t" using ib by (simp add: in_bounds_def)
  have ge: "get_entity ?g1 t = (if t = s then None else map_of (EntityLocations g) t)"
    using ib1 by (simp add: get_entity_def map_of_filter_neq)
  have f2: "filter (\<lambda>kv. fst kv \<noteq> t) ?d1
              = filter (\<lambda>kv. fst kv \<noteq> s \<and> fst kv \<noteq> t) (EntityLocations g)"
    by (simp add: conj_commute)
  have fresh: "t \<notin> fst ` set (filter (\<lambda>kv. fst kv \<noteq> s \<and> fst kv \<noteq> t) (EntityLocations g))"
    by auto
  have absent: "get_entity ?g1 t = None \<Longrightarrow> ?d1 = filter (\<lambda>kv. fst kv \<noteq> s \<and> fst kv \<noteq> t) (EntityLocations g)"
  proof -
    assume "get_entity ?g1 t = None"
    then have "map_of ?d1 t = None" using ib1 by (simp add: get_entity_def)
    then have "filter (\<lambda>kv. fst kv \<noteq> t) ?d1 = ?d1" by (rule filter_key_absent)
    then show ?thesis using f2 by simp
  qed
  have mv: "move_entity g s t =
          (case remove_entity ?g1 t of Inl err \<Rightarrow> Inl err
           | Inr g2 \<Rightarrow> Inr (g2\<lparr>EntityLocations := dict_update t x (EntityLocations g2)\<rparr>))"
    using ib at dk by (simp add: move_entity_def dict_del_filter)
  show ?thesis
  proof (cases "get_entity ?g1 t")
    case None
    then show ?thesis
      using remove_entity_eq[OF d1 s1, of t] absent[OF None] ge fresh
      by (simp add: mv dict_update_fresh)
  next
    case (Some y)
    then show ?thesis
      using remove_entity_eq[OF d1 s1, of t] ge f2 fresh
      by (simp add: mv dict_update_fresh)
  qed
qed


lemma add_entity_eq:
  assumes dk: "distinct (map fst (EntityLocations g))"
    and sub: "set (map snd (EntityLocations g)) \<subseteq> set (entities g)"
    and ib: "in_bounds g p"
  shows "add_entity g p e =
           Inr (g\<lparr>entities :=
                    (case map_of (EntityLocations g) p of
                       None \<Rightarrow> entities g
                     | Some r \<Rightarrow> remove1 r (entities g)) @ [e],
                  EntityLocations :=
                    filter (\<lambda>kv. fst kv \<noteq> p) (EntityLocations g) @ [(p, e)]\<rparr>)"
proof -
  have fresh: "p \<notin> fst ` set (filter (\<lambda>kv. fst kv \<noteq> p) (EntityLocations g))"
    by auto
  show ?thesis
  proof (cases "map_of (EntityLocations g) p")
    case None
    then show ?thesis using ib dk fresh
      by (simp add: add_entity_def dict_del_filter dict_update_fresh)
  next
    case (Some r)
    then have "(p, r) \<in> set (EntityLocations g)" by (rule map_of_SomeD)
    then have "r \<in> set (entities g)" using sub by force
    then show ?thesis using ib dk fresh Some
      by (simp add: add_entity_def dict_del_filter dict_update_fresh list_remove_def)
  qed
qed

lemma consistent_sub: "consistent g \<Longrightarrow> set (map snd (EntityLocations g)) \<subseteq> set (entities g)"
  by (simp add: consistent_def)

lemma dict_ok_distinct: "dict_ok g \<Longrightarrow> distinct (map fst (EntityLocations g))"
  by (simp add: dict_ok_def)

lemma distinct_map_snd_filter:
  "distinct (map snd d) \<Longrightarrow> distinct (map snd (filter P d))"
  by (rule distinct_map_filter)

text \<open>Evicting the occupant of a key keeps the dictionary and the list in step.\<close>

lemma evict_consistent:
  assumes dk: "distinct (map fst d)" and dv: "distinct (map snd d)"
    and de: "distinct es" and eq: "set es = set (map snd d)"
  shows "set (case map_of d p of None \<Rightarrow> es | Some r \<Rightarrow> remove1 r es)
           = set (map snd (filter (\<lambda>kv. fst kv \<noteq> p) d))
         \<and> distinct (case map_of d p of None \<Rightarrow> es | Some r \<Rightarrow> remove1 r es)"
proof (cases "map_of d p")
  case None
  then show ?thesis using de eq by (simp add: filter_key_absent)
next
  case (Some r)
  then show ?thesis using de eq values_filter_key[OF dk dv Some]
    by (simp add: set_remove1_eq)
qed


lemma in_bounds_update [simp]:
  "in_bounds (g\<lparr>entities := es\<rparr>) p = in_bounds g p"
  "in_bounds (g\<lparr>EntityLocations := d\<rparr>) p = in_bounds g p"
  by (simp_all add: in_bounds_def)

lemma remove_entity_inv:
  assumes ok: "dict_ok g" and co: "consistent g"
  shows "\<exists>g'. remove_entity g p = Inr g' \<and> dict_ok g' \<and> consistent g'"
proof -
  note eq = remove_entity_eq[OF dict_ok_distinct[OF ok] consistent_sub[OF co], of p]
  show ?thesis
  proof (cases "get_entity g p")
    case None
    then show ?thesis using eq ok co by simp
  next
    case (Some r)
    then have m: "map_of (EntityLocations g) p = Some r"
      by (simp add: get_entity_def split: if_splits)
    have ev: "set (remove1 r (entities g)) = set (map snd (filter (\<lambda>kv. fst kv \<noteq> p) (EntityLocations g)))
           \<and> distinct (remove1 r (entities g))"
      using evict_consistent[of "EntityLocations g" "entities g" p] ok co m
      by (simp add: dict_ok_def consistent_def)
    show ?thesis using eq Some ok co ev
      by (simp add: dict_ok_def consistent_def distinct_map_filter list_all_iff)
  qed
qed

lemma add_entity_inv:
  assumes ok: "dict_ok g" and co: "consistent g"
    and new: "e \<notin> set (entities g) \<or> get_entity g p = Some e \<or> \<not> in_bounds g p"
  shows "\<exists>g'. add_entity g p e = Inr g' \<and> dict_ok g' \<and> consistent g'"
proof (cases "in_bounds g p")
  case False
  then show ?thesis using ok co by (simp add: add_entity_def)
next
  case True
  note ib = True
  let ?d = "EntityLocations g"
  let ?es = "case map_of ?d p of None \<Rightarrow> entities g | Some r \<Rightarrow> remove1 r (entities g)"
  let ?d' = "filter (\<lambda>kv. fst kv \<noteq> p) ?d"
  note eq = add_entity_eq[OF dict_ok_distinct[OF ok] consistent_sub[OF co] True, of e]
  have ev: "set ?es = set (map snd ?d') \<and> distinct ?es"
    using evict_consistent[of ?d "entities g" p] ok co
    by (simp add: dict_ok_def consistent_def)
  have fresh: "e \<notin> set ?es"
  proof (cases "e \<in> set (entities g)")
    case False
    then show ?thesis by (auto split: option.splits dest: notin_set_remove1)
  next
    case True
    with new ib have "get_entity g p = Some e" by simp
    then have "map_of ?d p = Some e" by (simp add: get_entity_def split: if_splits)
    moreover have "distinct (entities g)" using co by (simp add: consistent_def)
    ultimately show ?thesis by simp
  qed
  have k: "p \<notin> fst ` set ?d'" by auto
  have "dict_ok (g\<lparr>entities := ?es @ [e], EntityLocations := ?d' @ [(p, e)]\<rparr>)"
    using ok True k by (simp add: dict_ok_def distinct_map_filter list_all_iff)
  moreover have "consistent (g\<lparr>entities := ?es @ [e], EntityLocations := ?d' @ [(p, e)]\<rparr>)"
    using ev fresh co by (simp add: consistent_def distinct_map_filter)
  ultimately show ?thesis using eq by simp
qed

lemma move_entity_inv:
  assumes ok: "dict_ok g" and co: "consistent g"
  shows "\<exists>g'. move_entity g s t = Inr g' \<and> dict_ok g' \<and> consistent g'"
proof (cases "in_bounds g s \<and> in_bounds g t")
  case False
  then show ?thesis using ok co by (auto simp: move_entity_def)
next
  case True
  let ?d = "EntityLocations g"
  note dk = dict_ok_distinct[OF ok]
  show ?thesis
  proof (cases "map_of ?d s")
    case None
    then have "g\<lparr>EntityLocations := dict_del s ?d\<rparr> = g"
      using dk by (simp add: dict_del_filter filter_key_absent)
    then show ?thesis using True None ok co by (simp add: move_entity_def)
  next
    case (Some x)
    let ?d1 = "filter (\<lambda>kv. fst kv \<noteq> s) ?d"
    let ?m = "if t = s then None else map_of ?d t"
    let ?es = "case ?m of None \<Rightarrow> entities g | Some y \<Rightarrow> remove1 y (entities g)"
    let ?d2 = "filter (\<lambda>kv. fst kv \<noteq> s \<and> fst kv \<noteq> t) ?d"
    note eq = move_entity_eq[OF dk consistent_sub[OF co] _ _ Some, of t]
    have dv: "distinct (map snd ?d)" and de: "distinct (entities g)"
      and se: "set (entities g) = set (map snd ?d)"
      using co by (simp_all add: consistent_def)
    have V1: "set (map snd ?d1) = set (map snd ?d) - {x}"
      by (rule values_filter_key[OF dk dv Some])
    have xin: "x \<in> set (map snd ?d)" using map_of_SomeD[OF Some] by force
    have dk1: "distinct (map fst ?d1)" and dv1: "distinct (map snd ?d1)"
      using dk dv by (simp_all add: distinct_map_filter)
    have m1: "map_of ?d1 t = ?m" by (simp add: map_of_filter_neq)
    have f2: "filter (\<lambda>kv. fst kv \<noteq> t) ?d1 = ?d2" by (simp add: conj_commute)
    have V2: "set (map snd ?d2) \<union> {x} = set ?es \<and> x \<notin> set (map snd ?d2)"
    proof (cases ?m)
      case None
      then have "map_of ?d1 t = None" using m1 by simp
      then have "filter (\<lambda>kv. fst kv \<noteq> t) ?d1 = ?d1" by (rule filter_key_absent)
      then have "?d2 = ?d1" using f2 by simp
      then have "set (map snd ?d2) = set (map snd ?d) - {x}" using V1 by simp
      moreover have "set ?es = set (map snd ?d)" using None se by simp
      ultimately show ?thesis using xin by blast
    next
      case (Some y)
      then have my: "map_of ?d1 t = Some y" using m1 by simp
      have "set (map snd (filter (\<lambda>kv. fst kv \<noteq> t) ?d1)) = set (map snd ?d1) - {y}"
        by (rule values_filter_key[OF dk1 dv1 my])
      then have a: "set (map snd ?d2) = set (map snd ?d) - {x} - {y}"
        using f2 V1 by simp
      have "(t, y) \<in> set ?d1" using my by (rule map_of_SomeD)
      then have "y \<in> set (map snd ?d1)" by force
      then have b: "y \<noteq> x" using V1 by blast
      have c: "set ?es = set (map snd ?d) - {y}"
        using Some se de by (simp add: set_remove1_eq)
      show ?thesis using a b c xin by blast
    qed
    have des: "distinct ?es" using de by (simp split: option.splits)
    have k: "t \<notin> fst ` set ?d2" by auto
    have "dict_ok (g\<lparr>entities := ?es, EntityLocations := ?d2 @ [(t, x)]\<rparr>)"
      using ok True k by (simp add: dict_ok_def distinct_map_filter list_all_iff)
    moreover have "consistent (g\<lparr>entities := ?es, EntityLocations := ?d2 @ [(t, x)]\<rparr>)"
      using V2 des dv by (auto simp: consistent_def distinct_map_filter)
    ultimately show ?thesis using eq True by simp
  qed
qed

section \<open>Inventory and infection\<close>

text \<open>
  Claim C1. \<open>Inventory.step\<close> is meant to age every held item by one step and to drop
  the expired ones. The loop removes from the list it iterates over, so the item that
  follows a removed one is skipped: with a garlic on its last step followed by a
  crossbow with five steps left, the garlic is dropped and the crossbow still has five
  steps left afterwards.
\<close>

theorem Inventory_step_skips_item_after_removal:
  "case Inventory_step holder game_garlic of
     Inl err \<Rightarrow> False
   | Inr g' \<Rightarrow>
       inventory g' holder = [crossbow2] \<and>
       remaining_steps g' crossbow2 = remaining_steps game_garlic crossbow2 \<and>
       remaining_steps g' crossbow2 = 5"
  by (simp add: Inventory_step_def Inventory_step_loop.simps game_garlic_def holder_def
        garlic1_def crossbow2_def)

lemma display_GARLIC: "GARLIC = display e \<longleftrightarrow> cls_of e = Garlic"
  by (cases e rule: display.cases)
     (simp_all add: PLAYER_def HOSPITAL_def ZOMBIE_def TRACKING_ZOMBIE_def GARLIC_def CROSSBOW_def)

lemma display_CROSSBOW: "CROSSBOW = display e \<longleftrightarrow> cls_of e = Crossbow"
  by (cases e rule: display.cases)
     (simp_all add: PLAYER_def HOSPITAL_def ZOMBIE_def TRACKING_ZOMBIE_def GARLIC_def CROSSBOW_def)

lemma contains_GARLIC: "contains items GARLIC \<longleftrightarrow> (\<exists>item \<in> set items. cls_of item = Garlic)"
  by (induction items) (auto simp: display_GARLIC)

lemma contains_CROSSBOW: "contains items CROSSBOW \<longleftrightarrow> (\<exists>item \<in> set items. cls_of item = Crossbow)"
  by (induction items) (auto simp: display_CROSSBOW)

text \<open>
  Claim C7. For a \<open>HoldingPlayer\<close>, \<open>infect\<close> leaves the whole state, and with it the
  \<open>infected\<close> flag, unchanged when the inventory holds a garlic, and sets the flag
  otherwise.
\<close>

theorem HoldingPlayer_infect_garlic:
  assumes "cls_of p = HoldingPlayer"
  shows "((\<exists>item \<in> set (inventory g p). cls_of item = Garlic) \<longrightarrow>
            infect p g = Inr g) \<and>
         (\<not> (\<exists>item \<in> set (inventory g p). cls_of item = Garlic) \<longrightarrow>
            infect p g = Inr (g\<lparr>infected := (infected g)(p := True)\<rparr>) \<and>
            is_infected p (g\<lparr>infected := (infected g)(p := True)\<rparr>))"
  using assms by (simp add: infect_def contains_GARLIC is_infected_def)

theorem HoldingPlayer_infect_garlic_witness:
  "infect holder game_garlic = Inr game_garlic \<and>
   \<not> is_infected holder game_garlic \<and>
   infect holder game_no_garlic =
     Inr (game_no_garlic\<lparr>infected := (infected game_no_garlic)(holder := True)\<rparr>)"
  using HoldingPlayer_infect_garlic[of holder game_garlic]
        HoldingPlayer_infect_garlic[of holder game_no_garlic]
  by (simp add: game_garlic_def game_no_garlic_def holder_def garlic1_def crossbow2_def
        is_infected_def)

section \<open>find_player\<close>

lemmas example_defs =
  holder_def garlic1_def crossbow2_def zombie3_def tracker4_def hospital5_def
  player6_def player7_def

lemma find_player_loop_find:
  "find_player_loop d = map_option fst (find (\<lambda>kv. isinstance_Player (snd kv)) d)"
  by (induction d) auto

lemma find_player_None:
  "find_player g = None \<longleftrightarrow> (\<forall>kv \<in> set (EntityLocations g). \<not> isinstance_Player (snd kv))"
  by (auto simp: find_player_def find_player_loop_find find_None_iff)

lemma find_player_loop_Some:
  "find_player_loop d = Some p \<Longrightarrow>
     \<exists>pre e post. d = pre @ (p, e) # post \<and> isinstance_Player e \<and>
       (\<forall>kv \<in> set pre. \<not> isinstance_Player (snd kv))"
proof (induction d)
  case Nil
  then show ?case by simp
next
  case (Cons kv d)
  show ?case
  proof (cases "isinstance_Player (snd kv)")
    case True
    with Cons.prems have "kv # d = [] @ (p, snd kv) # d" by auto
    with True show ?thesis by fastforce
  next
    case False
    with Cons obtain pre e post where
      "d = pre @ (p, e) # post" "isinstance_Player e" "\<forall>kv \<in> set pre. \<not> isinstance_Player (snd kv)"
      by auto
    with False have "kv # d = (kv # pre) @ (p, e) # post \<and> isinstance_Player e \<and>
        (\<forall>kv \<in> set (kv # pre). \<not> isinstance_Player (snd kv))" by simp
    then show ?thesis by blast
  qed
qed

lemma find_player_Some:
  assumes "find_player g = Some p"
  shows "\<exists>pre e post. EntityLocations g = pre @ (p, e) # post \<and> isinstance_Player e \<and>
           (\<forall>kv \<in> set pre. \<not> isinstance_Player (snd kv))"
  using assms find_player_loop_Some by (simp add: find_player_def)

lemma find_player_unique:
  assumes co: "consistent g"
    and one: "length (filter isinstance_Player (entities g)) \<le> 1"
  shows "find_player g = find_player_spec g"
proof (cases "find isinstance_Player (entities g)")
  case None
  then have "\<forall>e \<in> set (entities g). \<not> isinstance_Player e" by (simp add: find_None_iff)
  then have "\<forall>kv \<in> set (EntityLocations g). \<not> isinstance_Player (snd kv)"
    using co by (auto simp: consistent_def)
  then have "find_player g = None" by (simp add: find_player_None)
  then show ?thesis using None by (simp add: find_player_spec_def)
next
  case (Some e)
  then have e: "e \<in> set (entities g)" "isinstance_Player e"
    by (auto simp: find_Some_iff)
  have only: "e' = e" if "e' \<in> set (entities g)" "isinstance_Player e'" for e'
  proof (rule ccontr)
    assume ne: "e' \<noteq> e"
    have "{e, e'} \<subseteq> set (filter isinstance_Player (entities g))" using e that by simp
    then have "card {e, e'} \<le> card (set (filter isinstance_Player (entities g)))"
      by (intro card_mono) auto
    also have "\<dots> \<le> length (filter isinstance_Player (entities g))" by (rule card_length)
    finally show False using ne one by simp
  qed
  have "find (\<lambda>kv. isinstance_Player (snd kv)) (EntityLocations g)
          = find (\<lambda>kv. snd kv = e) (EntityLocations g)"
  proof (rule find_cong[OF refl])
    fix kv assume "kv \<in> set (EntityLocations g)"
    then have "snd kv \<in> set (entities g)" using co by (auto simp: consistent_def)
    then show "isinstance_Player (snd kv) = (snd kv = e)" using only e by blast
  qed
  then show ?thesis using Some
    by (simp add: find_player_spec_def position_of_def find_player_def find_player_loop_find)
qed

text \<open>
  Claim C9, amended. \<open>find_player\<close> scans the dictionary \<open>EntityLocations\<close>, not the
  list \<open>entities\<close>: it is absent exactly when the mapping holds no player, and
  otherwise it is the key of the first entry of the mapping, in the dictionary's own
  order, whose value is a player. In a consistent grid with at most one player that is
  the position of the first player of the list \<open>entities\<close>, also after moves.
\<close>

theorem find_player_first_in_mapping:
  "(find_player g = None \<longleftrightarrow>
      (\<forall>kv \<in> set (EntityLocations g). \<not> isinstance_Player (snd kv))) \<and>
   (\<forall>p. find_player g = Some p \<longrightarrow>
      (\<exists>pre e post. EntityLocations g = pre @ (p, e) # post \<and> isinstance_Player e \<and>
         (\<forall>kv \<in> set pre. \<not> isinstance_Player (snd kv)))) \<and>
   (consistent g \<and> length (filter isinstance_Player (entities g)) \<le> 1 \<longrightarrow>
      find_player g = find_player_spec g)"
  using find_player_None find_player_Some find_player_unique by blast

theorem find_player_first_in_mapping_witness:
  "consistent grid_pz \<and> length (filter isinstance_Player (entities grid_pz)) \<le> 1 \<and>
   find_player grid_pz = find_player_spec grid_pz \<and> find_player grid_pz = Some (0, 0)"
  using find_player_first_in_mapping[of grid_pz]
  by (simp add: grid_pz_def consistent_def example_defs find_player_def)

text \<open>
  Claim C9 as stated fails after a move in a grid with two players: \<open>move_entity\<close>
  re-inserts the moved player's key last in the dictionary and keeps its slot in the
  list, so the scan of the dictionary finds the second player first.
\<close>

theorem find_player_order_counterexample:
  "dict_ok grid_two \<and> consistent grid_two \<and>
   move_entity grid_two (0, 0) (0, 1) = Inr grid_two_moved \<and>
   find_player grid_two_moved = Some (1, 1) \<and>
   find_player_spec grid_two_moved = Some (0, 1) \<and>
   find_player grid_two_moved \<noteq> find_player_spec grid_two_moved"
  by (simp add: grid_two_def grid_two_moved_def dict_ok_def consistent_def example_defs
        move_entity_def remove_entity_def in_bounds_def find_player_def
        find_player_spec_def position_of_def)

section \<open>Moving, adding and removing entities\<close>

lemma map_of_filter_two:
  "map_of (filter (\<lambda>kv. fst kv \<noteq> s \<and> fst kv \<noteq> t) d) q
     = (if q = s \<or> q = t then None else map_of d q)"
  by (induction d) auto

lemma map_of_moved:
  "map_of (filter (\<lambda>kv. fst kv \<noteq> s \<and> fst kv \<noteq> t) d @ [(t, x)]) q
     = (if q = t then Some x else if q = s then None else map_of d q)"
  by (simp add: map_of_snoc map_of_filter_two split: option.splits del: map_of_append)

lemma move_entity_lookup:
  assumes ok: "dict_ok g" and co: "consistent g"
    and ib: "in_bounds g s" "in_bounds g t"
    and at: "get_entity g s = Some x"
  shows "\<exists>g'. move_entity g s t = Inr g' \<and> size_grid g' = size_grid g \<and>
           entities g' = (case (if t = s then None else get_entity g t) of
                            None \<Rightarrow> entities g | Some y \<Rightarrow> remove1 y (entities g)) \<and>
           (\<forall>q. get_entity g' q =
                  (if q = t then Some x else if q = s then None else get_entity g q))"
proof -
  have m: "map_of (EntityLocations g) s = Some x"
    using at by (simp add: get_entity_def split: if_splits)
  note eq = move_entity_eq[OF dict_ok_distinct[OF ok] consistent_sub[OF co] ib m]
  have gt: "get_entity g t = map_of (EntityLocations g) t"
    using ib by (simp add: get_entity_def)
  let ?g' = "g\<lparr>entities :=
                    (case (if t = s then None else map_of (EntityLocations g) t) of
                       None \<Rightarrow> entities g
                     | Some y \<Rightarrow> remove1 y (entities g)),
                  EntityLocations :=
                    filter (\<lambda>kv. fst kv \<noteq> s \<and> fst kv \<noteq> t) (EntityLocations g) @ [(t, x)]\<rparr>"
  have "get_entity ?g' q = (if q = t then Some x else if q = s then None else get_entity g q)" for q
    using ib by (simp add: get_entity_def map_of_moved del: map_of_append)
  moreover have "size_grid ?g' = size_grid g" by simp
  moreover have "entities ?g' = (case (if t = s then None else get_entity g t) of
                            None \<Rightarrow> entities g | Some y \<Rightarrow> remove1 y (entities g))"
    using gt by simp
  ultimately show ?thesis using eq by blast
qed

text \<open>
  Claim C5, amended. In a well-formed grid, for in-bounds \<open>s\<close> and \<open>t\<close> with \<open>x\<close> at
  \<open>s\<close>, \<open>move_entity\<close> returns normally with \<open>x\<close> at \<open>t\<close>, \<open>x\<close> still in the list
  \<open>entities\<close> and every other cell as before. For \<open>s \<noteq> t\<close> the cell \<open>s\<close> is empty
  afterwards, the list is the old one without the former occupant of \<open>t\<close> (so the
  order of the others, \<open>x\<close> among them, is kept), and that occupant is gone from the
  list and from the mapping. For \<open>s = t\<close> the list is unchanged and \<open>x\<close> stays at \<open>s\<close>.
\<close>

theorem move_entity_relocates:
  assumes "dict_ok g" and "consistent g"
    and "in_bounds g s" and "in_bounds g t"
    and "get_entity g s = Some x"
  shows "\<exists>g'. move_entity g s t = Inr g' \<and>
           get_entity g' t = Some x \<and> x \<in> set (entities g') \<and>
           (\<forall>q. q \<noteq> s \<and> q \<noteq> t \<longrightarrow> get_entity g' q = get_entity g q) \<and>
           (s \<noteq> t \<longrightarrow>
              get_entity g' s = None \<and>
              entities g' = (case get_entity g t of
                               None \<Rightarrow> entities g
                             | Some y \<Rightarrow> remove1 y (entities g)) \<and>
              (\<forall>y. get_entity g t = Some y \<longrightarrow>
                     y \<notin> set (entities g') \<and> y \<notin> set (map snd (EntityLocations g')))) \<and>
           (s = t \<longrightarrow> entities g' = entities g)"
proof -
  from move_entity_lookup[OF assms] obtain g' where
    mv: "move_entity g s t = Inr g'"
    and es: "entities g' = (case (if t = s then None else get_entity g t) of
                            None \<Rightarrow> entities g | Some y \<Rightarrow> remove1 y (entities g))"
    and lk: "\<And>q. get_entity g' q =
                  (if q = t then Some x else if q = s then None else get_entity g q)"
    by blast
  from move_entity_inv[OF assms(1,2), of s t] mv have co': "consistent g'" by simp
  have de: "distinct (entities g)" using assms(2) by (simp add: consistent_def)
  have "map_of (EntityLocations g') t = Some x"
    using lk[of t] by (simp add: get_entity_def split: if_splits)
  then have "(t, x) \<in> set (EntityLocations g')" by (rule map_of_SomeD)
  then have "x \<in> set (map snd (EntityLocations g'))" by force
  then have xin: "x \<in> set (entities g')" using co' by (simp add: consistent_def)
  have gone: "y \<notin> set (entities g') \<and> y \<notin> set (map snd (EntityLocations g'))"
    if "s \<noteq> t" "get_entity g t = Some y" for y
  proof -
    have "entities g' = remove1 y (entities g)" using es that by simp
    then have "y \<notin> set (entities g')" using de by simp
    then show ?thesis using co' by (simp add: consistent_def)
  qed
  show ?thesis using mv es lk xin gone by auto
qed

theorem move_entity_relocates_witness:
  "dict_ok grid_pz \<and> consistent grid_pz \<and> in_bounds grid_pz (0, 0) \<and>
   in_bounds grid_pz (1, 0) \<and> get_entity grid_pz (0, 0) = Some holder \<and>
   get_entity grid_pz (1, 0) = Some zombie3 \<and>
   (\<exists>g'. move_entity grid_pz (0, 0) (1, 0) = Inr g' \<and> get_entity g' (1, 0) = Some holder \<and>
      get_entity g' (0, 0) = None \<and> entities g' = [holder] \<and>
      zombie3 \<notin> set (map snd (EntityLocations g')))"
proof -
  have h: "dict_ok grid_pz" "consistent grid_pz" "in_bounds grid_pz (0, 0)"
    "in_bounds grid_pz (1, 0)" "get_entity grid_pz (0, 0) = Some holder"
    and z: "get_entity grid_pz (1, 0) = Some zombie3"
    by (simp_all add: grid_pz_def dict_ok_def consistent_def in_bounds_def get_entity_def
          example_defs)
  have ne: "((0, 0) :: position) \<noteq> (1, 0)" by simp
  have r: "remove1 zombie3 (entities grid_pz) = [holder]"
    by (simp add: grid_pz_def example_defs)
  from move_entity_relocates[OF h] obtain g' where
    "move_entity grid_pz (0, 0) (1, 0) = Inr g'" "get_entity g' (1, 0) = Some holder"
    "get_entity g' (0, 0) = None" "entities g' = [holder]"
    "zombie3 \<notin> set (map snd (EntityLocations g'))"
    using ne z r by auto
  then show ?thesis using h z by blast
qed

text \<open>
  Claim C5 as stated fails for \<open>s = t\<close>: the entity is popped from \<open>s\<close> and put back
  at \<open>s\<close>, so \<open>s\<close> is not empty afterwards.
\<close>

theorem move_entity_same_cell_counterexample:
  "dict_ok grid_pz \<and> consistent grid_pz \<and> in_bounds grid_pz (0, 0) \<and>
   get_entity grid_pz (0, 0) = Some holder \<and>
   move_entity grid_pz (0, 0) (0, 0) =
     Inr (grid_pz\<lparr>EntityLocations := [((1, 0), zombie3), ((0, 0), holder)]\<rparr>) \<and>
   get_entity (grid_pz\<lparr>EntityLocations := [((1, 0), zombie3), ((0, 0), holder)]\<rparr>) (0, 0)
     \<noteq> None"
  by (simp add: grid_pz_def dict_ok_def consistent_def in_bounds_def get_entity_def
        move_entity_def remove_entity_def example_defs)

text \<open>
  Claim C6, amended. On a well-formed grid \<open>remove_entity\<close> and \<open>move_entity\<close> return
  normally and keep the mapping and the list \<open>entities\<close> consistent, for all
  positions. \<open>add_entity\<close> does so when the added object is not yet in the grid, or
  is the occupant of the target cell itself, or the position is out of bounds.
\<close>

theorem grid_operations_preserve_consistency:
  assumes "dict_ok g" and "consistent g"
  shows "(\<exists>g'. remove_entity g p = Inr g' \<and> dict_ok g' \<and> consistent g') \<and>
         (\<exists>g'. move_entity g s t = Inr g' \<and> dict_ok g' \<and> consistent g') \<and>
         (e \<notin> set (entities g) \<or> get_entity g p = Some e \<or> \<not> in_bounds g p \<longrightarrow>
            (\<exists>g'. add_entity g p e = Inr g' \<and> dict_ok g' \<and> consistent g'))"
  using remove_entity_inv[OF assms] move_entity_inv[OF assms] add_entity_inv[OF assms]
  by blast

theorem grid_operations_preserve_consistency_witness:
  "dict_ok grid_pz \<and> consistent grid_pz \<and> hospital5 \<notin> set (entities grid_pz) \<and>
   (\<exists>g'. remove_entity grid_pz (1, 0) = Inr g' \<and> dict_ok g' \<and> consistent g') \<and>
   (\<exists>g'. move_entity grid_pz (0, 0) (1, 0) = Inr g' \<and> dict_ok g' \<and> consistent g') \<and>
   (\<exists>g'. add_entity grid_pz (1, 0) hospital5 = Inr g' \<and> dict_ok g' \<and> consistent g')"
  using grid_operations_preserve_consistency
          [where g = grid_pz and e = hospital5 and p = "(1, 0)" and s = "(0, 0)" and t = "(1, 0)"]
  by (simp add: grid_pz_def dict_ok_def consistent_def in_bounds_def example_defs)

text \<open>
  Claim C6 as stated fails when an object that is in the grid is added again at another
  position: it then occupies two cells and appears twice in the list.
\<close>

theorem add_entity_again_counterexample:
  "dict_ok grid_pz \<and> consistent grid_pz \<and>
   add_entity grid_pz (2, 2) holder = Inr grid_pz_readded \<and>
   \<not> consistent grid_pz_readded"
  by (simp add: grid_pz_def grid_pz_readded_def dict_ok_def consistent_def in_bounds_def
        add_entity_def example_defs)

section \<open>The walk of a zombie over its candidates\<close>

lemma Zombie_step_loop_spec:
  "Zombie_step_loop dirs position g = wander_spec dirs position g"
  by (induction dirs) (auto simp: wander_spec_def decisive_def Let_def split: option.splits)

lemma infect_grid: "infect e g = Inr g' \<Longrightarrow> grid g' = grid g"
  by (auto simp: infect_def split: cls.splits if_splits)

lemma get_entity_in_bounds: "get_entity gr p = Some e \<Longrightarrow> in_bounds gr p"
  by (simp add: get_entity_def split: if_splits)




lemma get_player_Some:
  assumes ok: "dict_ok (grid g)" and fp: "find_player (grid g) = Some p"
  shows "\<exists>e. get_player g = Some e \<and> isinstance_Player e \<and> (p, e) \<in> set (EntityLocations (grid g))"
proof -
  from find_player_Some[OF fp] obtain pre e post where
    d: "EntityLocations (grid g) = pre @ (p, e) # post" and e: "isinstance_Player e"
    by blast
  have mem: "(p, e) \<in> set (EntityLocations (grid g))" using d by simp
  have "map_of (EntityLocations (grid g)) p = Some e"
    using ok mem by (simp add: dict_ok_def)
  moreover have "in_bounds (grid g) p"
    using ok mem by (force simp: dict_ok_def list_all_iff)
  ultimately have "get_player g = Some e"
    using fp by (simp add: get_player_def get_entity_def)
  then show ?thesis using e mem by blast
qed

lemma get_entity_mem:
  "get_entity gr p = Some e \<Longrightarrow> (p, e) \<in> set (EntityLocations gr)"
  by (auto simp: get_entity_def split: if_splits dest: map_of_SomeD)

lemma player_present:
  assumes ok: "dict_ok (grid g)" and at: "get_entity (grid g) q = Some e"
    and pl: "isinstance_Player e"
  shows "\<exists>p e'. find_player (grid g) = Some p \<and> get_player g = Some e' \<and> isinstance_Player e' \<and>
           (p, e') \<in> set (EntityLocations (grid g))"
proof -
  have "(q, e) \<in> set (EntityLocations (grid g))" using at by (rule get_entity_mem)
  then have "\<not> (\<forall>kv \<in> set (EntityLocations (grid g)). \<not> isinstance_Player (snd kv))"
    using pl by force
  then have "find_player (grid g) \<noteq> None" using find_player_None[of "grid g"] by blast
  then obtain p where "find_player (grid g) = Some p" by auto
  then show ?thesis using get_player_Some[OF ok] by blast
qed

lemma only_player:
  assumes co: "consistent gr"
    and one: "length (filter isinstance_Player (entities gr)) \<le> 1"
    and a: "(p, e) \<in> set (EntityLocations gr)" "isinstance_Player e"
    and b: "(q, e') \<in> set (EntityLocations gr)" "isinstance_Player e'"
  shows "e' = e"
proof (rule ccontr)
  assume ne: "e' \<noteq> e"
  have "e \<in> set (entities gr)" "e' \<in> set (entities gr)"
    using co a b by (force simp: consistent_def)+
  then have "{e, e'} \<subseteq> set (filter isinstance_Player (entities gr))" using a b by simp
  then have "card {e, e'} \<le> card (set (filter isinstance_Player (entities gr)))"
    by (intro card_mono) auto
  also have "\<dots> \<le> length (filter isinstance_Player (entities gr))" by (rule card_length)
  finally show False using ne one by simp
qed

lemma infect_total:
  "isinstance_Player e \<Longrightarrow> cls_of e \<noteq> Player \<Longrightarrow> \<exists>g'. infect e g = Inr g'"
  by (cases e) (auto simp: infect_def)

lemma wander_spec_total:
  assumes ok: "dict_ok (grid g)" and co: "consistent (grid g)"
    and inf: "players_infectable (grid g)"
  shows "\<exists>g'. wander_spec dirs position g = Inr g'"
proof (cases "find (decisive g position) dirs")
  case None
  then show ?thesis by (simp add: wander_spec_def)
next
  case (Some d)
  then have dec: "decisive g position d" by (auto simp: find_Some_iff)
  let ?dest = "Position_add position d"
  show ?thesis
  proof (cases "get_entity (grid g) ?dest")
    case None
    from move_entity_inv[OF ok co, of position ?dest] obtain gr where
      "move_entity (grid g) position ?dest = Inr gr" by blast
    then show ?thesis using Some None by (simp add: wander_spec_def)
  next
    case (Some e)
    then have "isinstance_Player e" using dec by (simp add: decisive_def)
    from player_present[OF ok Some this] obtain p e' where
      e': "get_player g = Some e'" "isinstance_Player e'" "(p, e') \<in> set (EntityLocations (grid g))"
      by blast
    then have "cls_of e' \<noteq> Player" using inf by (force simp: players_infectable_def list_all_iff)
    from infect_total[OF e'(2) this] obtain g' where "infect e' g = Inr g'" by blast
    then show ?thesis using \<open>find (decisive g position) dirs = Some d\<close> Some e'(1)
      by (simp add: wander_spec_def)
  qed
qed

section \<open>Zombie.step\<close>

text \<open>
  Claim C8. For every list \<open>rnd_directions\<close> that the random source returns, the step
  of a wandering zombie \<open>z\<close> standing at \<open>position\<close> in a well-formed grid is the
  spec's walk \<open>wander_spec\<close> over that list: candidates out of bounds or occupied by
  something other than a player are passed over and the first remaining candidate
  decides. Without one the state is unchanged. If its destination is empty, the zombie
  is moved there and leaves \<open>position\<close>. If it holds a player, the step is the call of
  \<open>infect\<close> on \<open>get_player\<close>, the grid is not changed, and with at most one player in
  the grid \<open>get_player\<close> is the occupant of that destination.
\<close>

theorem Zombie_step_tries_candidates_in_order:
  assumes "dict_ok (grid g)" and "consistent (grid g)"
    and "get_entity (grid g) position = Some z"
  shows "Zombie_step rnd_directions position g = wander_spec rnd_directions position g \<and>
         (find (decisive g position) rnd_directions = None \<longrightarrow>
            Zombie_step rnd_directions position g = Inr g) \<and>
         (\<forall>d. find (decisive g position) rnd_directions = Some d \<and>
              get_entity (grid g) (Position_add position d) = None \<longrightarrow>
              (\<exists>gr. Zombie_step rnd_directions position g = Inr (g\<lparr>grid := gr\<rparr>) \<and>
                 get_entity gr (Position_add position d) = Some z \<and>
                 get_entity gr position = None)) \<and>
         (\<forall>d e. find (decisive g position) rnd_directions = Some d \<and>
              get_entity (grid g) (Position_add position d) = Some e \<longrightarrow>
              isinstance_Player e \<and>
              Zombie_step rnd_directions position g =
                (case get_player g of None \<Rightarrow> Inl AttributeError
                 | Some player \<Rightarrow> infect player g) \<and>
              (\<forall>g'. Zombie_step rnd_directions position g = Inr g' \<longrightarrow> grid g' = grid g) \<and>
              (length (filter isinstance_Player (entities (grid g))) \<le> 1 \<longrightarrow>
                 get_player g = Some e))"
proof -
  note ok = assms(1) and co = assms(2) and at = assms(3)
  have eq: "Zombie_step rnd_directions position g = wander_spec rnd_directions position g"
    by (simp add: Zombie_step_def Zombie_step_loop_spec)
  have none: "Zombie_step rnd_directions position g = Inr g"
    if "find (decisive g position) rnd_directions = None"
    using that by (simp add: eq wander_spec_def)
  have move: "\<exists>gr. Zombie_step rnd_directions position g = Inr (g\<lparr>grid := gr\<rparr>) \<and>
                 get_entity gr (Position_add position d) = Some z \<and>
                 get_entity gr position = None"
    if f: "find (decisive g position) rnd_directions = Some d"
      and emp: "get_entity (grid g) (Position_add position d) = None" for d
  proof -
    let ?dest = "Position_add position d"
    have "decisive g position d" using f by (auto simp: find_Some_iff)
    then have ib: "in_bounds (grid g) ?dest" by (simp add: decisive_def)
    have ne: "?dest \<noteq> position" using emp at by auto
    from move_entity_lookup[OF ok co get_entity_in_bounds[OF at] ib at]
    obtain gr where gr: "move_entity (grid g) position ?dest = Inr gr"
      "\<And>q. get_entity gr q =
             (if q = ?dest then Some z else if q = position then None else get_entity (grid g) q)"
      by blast
    have "Zombie_step rnd_directions position g = Inr (g\<lparr>grid := gr\<rparr>)"
      using f emp gr(1) by (simp add: eq wander_spec_def)
    moreover have "get_entity gr ?dest = Some z" "get_entity gr position = None"
      using ne by (simp_all add: gr(2))
    ultimately show ?thesis by blast
  qed
  have inf: "isinstance_Player e \<and>
              Zombie_step rnd_directions position g =
                (case get_player g of None \<Rightarrow> Inl AttributeError
                 | Some player \<Rightarrow> infect player g) \<and>
              (\<forall>g'. Zombie_step rnd_directions position g = Inr g' \<longrightarrow> grid g' = grid g) \<and>
              (length (filter isinstance_Player (entities (grid g))) \<le> 1 \<longrightarrow>
                 get_player g = Some e)"
    if f: "find (decisive g position) rnd_directions = Some d"
      and occ: "get_entity (grid g) (Position_add position d) = Some e" for d e
  proof -
    have "decisive g position d" using f by (auto simp: find_Some_iff)
    then have pl: "isinstance_Player e" using occ by (simp add: decisive_def)
    have step: "Zombie_step rnd_directions position g =
                (case get_player g of None \<Rightarrow> Inl AttributeError
                 | Some player \<Rightarrow> infect player g)"
      using f occ by (simp add: eq wander_spec_def)
    have same: "grid g' = grid g" if "Zombie_step rnd_directions position g = Inr g'" for g'
      using that step by (auto split: option.splits dest: infect_grid)
    have uniq: "get_player g = Some e"
      if one: "length (filter isinstance_Player (entities (grid g))) \<le> 1"
    proof -
      from player_present[OF ok occ pl] obtain p e' where
        e': "get_player g = Some e'" "isinstance_Player e'"
            "(p, e') \<in> set (EntityLocations (grid g))"
        by blast
      have "e' = e"
        using only_player[OF co one get_entity_mem[OF occ] pl e'(3) e'(2)] .
      then show ?thesis using e'(1) by simp
    qed
    show ?thesis using pl step same uniq by blast
  qed
  show ?thesis using eq none move inf by blast
qed

theorem Zombie_step_tries_candidates_in_order_witness:
  "dict_ok (grid game_pz) \<and> consistent (grid game_pz) \<and>
   get_entity (grid game_pz) (1, 0) = Some zombie3 \<and>
   find (decisive game_pz (1, 0)) [(0, -1), (1, 0), (0, 1), (-1, 0)] = Some (1, 0) \<and>
   get_entity (grid game_pz) (Position_add (1, 0) (1, 0)) = None \<and>
   (\<exists>gr. Zombie_step [(0, -1), (1, 0), (0, 1), (-1, 0)] (1, 0) game_pz
            = Inr (game_pz\<lparr>grid := gr\<rparr>) \<and>
         get_entity gr (2, 0) = Some zombie3 \<and> get_entity gr (1, 0) = None) \<and>
   find (decisive game_pz (1, 0)) [(0, -1), (-1, 0), (0, 1), (1, 0)] = Some (-1, 0) \<and>
   get_entity (grid game_pz) (Position_add (1, 0) (-1, 0)) = Some holder \<and>
   Zombie_step [(0, -1), (-1, 0), (0, 1), (1, 0)] (1, 0) game_pz
     = Inr (game_pz\<lparr>infected := (infected game_pz)(holder := True)\<rparr>)"
proof -
  have h: "dict_ok (grid game_pz)" "consistent (grid game_pz)"
    "get_entity (grid game_pz) (1, 0) = Some zombie3"
    by (simp_all add: game_pz_def game_no_garlic_def game_garlic_def grid_pz_def dict_ok_def
          consistent_def get_entity_def in_bounds_def example_defs)
  have f1: "find (decisive game_pz (1, 0)) [(0, -1), (1, 0), (0, 1), (-1, 0)] = Some (1, 0)"
    and e1: "get_entity (grid game_pz) (Position_add (1, 0) (1, 0)) = None"
    and f2: "find (decisive game_pz (1, 0)) [(0, -1), (-1, 0), (0, 1), (1, 0)] = Some (-1, 0)"
    and e2: "get_entity (grid game_pz) (Position_add (1, 0) (-1, 0)) = Some holder"
    and gp: "get_player game_pz = Some holder"
    and pa: "Position_add (1, 0) (1, 0) = (2, 0)"
    by (simp_all add: game_pz_def game_no_garlic_def game_garlic_def grid_pz_def decisive_def
          get_entity_def in_bounds_def Position_add_def get_player_def find_player_def
          example_defs)
  have i: "infect holder game_pz = Inr (game_pz\<lparr>infected := (infected game_pz)(holder := True)\<rparr>)"
    by (simp add: infect_def game_pz_def game_no_garlic_def game_garlic_def example_defs
          CROSSBOW_def GARLIC_def)
  note t1 = Zombie_step_tries_candidates_in_order[OF h, of "[(0, -1), (1, 0), (0, 1), (-1, 0)]"]
  note t2 = Zombie_step_tries_candidates_in_order[OF h, of "[(0, -1), (-1, 0), (0, 1), (1, 0)]"]
  have m0: "\<exists>gr. Zombie_step [(0, -1), (1, 0), (0, 1), (-1, 0)] (1, 0) game_pz
            = Inr (game_pz\<lparr>grid := gr\<rparr>) \<and>
         get_entity gr (Position_add (1, 0) (1, 0)) = Some zombie3 \<and> get_entity gr (1, 0) = None"
    using t1 f1 e1 by blast
  have m: "\<exists>gr. Zombie_step [(0, -1), (1, 0), (0, 1), (-1, 0)] (1, 0) game_pz
            = Inr (game_pz\<lparr>grid := gr\<rparr>) \<and>
         get_entity gr (2, 0) = Some zombie3 \<and> get_entity gr (1, 0) = None"
    using m0 by (simp only: pa)
  have "Zombie_step [(0, -1), (-1, 0), (0, 1), (1, 0)] (1, 0) game_pz =
          (case get_player game_pz of None \<Rightarrow> Inl AttributeError
           | Some player \<Rightarrow> infect player game_pz)"
    using t2 f2 e2 by blast
  then have "Zombie_step [(0, -1), (-1, 0), (0, 1), (1, 0)] (1, 0) game_pz
     = Inr (game_pz\<lparr>infected := (infected game_pz)(holder := True)\<rparr>)"
    by (simp only: gp i option.case)
  then show ?thesis using h f1 e1 f2 e2 m by blast
qed

section \<open>TrackingZombie.step\<close>

lemma key_le_total: "key_le a b \<or> key_le b a"
  by (auto simp: key_le_def)

lemma key_le_trans: "key_le a b \<Longrightarrow> key_le b c \<Longrightarrow> key_le a c"
  by (auto simp: key_le_def)

lemma set_insort_compressed: "set (insort_compressed x xs) = insert x (set xs)"
  by (induction xs) auto

lemma length_insort_compressed: "length (insort_compressed x xs) = Suc (length xs)"
  by (induction xs) auto

lemma sorted_insort_compressed:
  "sorted_wrt key_le xs \<Longrightarrow> sorted_wrt key_le (insort_compressed x xs)"
proof (induction xs)
  case Nil
  then show ?case by simp
next
  case (Cons y ys)
  show ?case
  proof (cases "key_le x y")
    case True
    then show ?thesis using Cons.prems by (auto intro: key_le_trans)
  next
    case False
    then have "key_le y x" using key_le_total by blast
    then show ?thesis using False Cons by (auto simp: set_insort_compressed)
  qed
qed

lemma sorted_compressed_props:
  "sorted_wrt key_le (sorted_compressed xs) \<and> set (sorted_compressed xs) = set xs \<and>
   length (sorted_compressed xs) = length xs"
  by (induction xs)
     (simp_all add: sorted_compressed_def sorted_insort_compressed set_insort_compressed
        length_insort_compressed)

lemma Position_add_commute: "Position_add a b = Position_add b a"
  by (simp add: Position_add_def)

lemma compressed_list_props:
  "distinct (map fst (compressed_list pp position)) \<and>
   set (map fst (compressed_list pp position)) = set offsets_list \<and>
   sorted_wrt (tracking_le pp position) (map fst (compressed_list pp position))"
proof -
  define D where "D = (\<lambda>offset. Position_distance pp (Position_add offset position))"
  define zs where "zs = zip offsets_list (zip (map D offsets_list) directions_list)"
  define cs where "cs = rev (sorted_compressed zs)"
  have cl: "compressed_list pp position = cs"
    by (simp add: compressed_list_def cs_def zs_def D_def)
  have zs: "zs = [((0, 1), D (0, 1), CHR ''S''), ((0, -1), D (0, -1), CHR ''N''),
                   ((1, 0), D (1, 0), CHR ''E''), ((-1, 0), D (-1, 0), CHR ''W'')]"
    by (simp add: zs_def offsets_list_def directions_list_def)
  have so0: "sorted_wrt key_le (sorted_compressed zs)"
    and se0: "set (sorted_compressed zs) = set zs"
    and le0: "length (sorted_compressed zs) = length zs"
    using sorted_compressed_props[of zs] by simp_all
  have "set (map fst cs) = fst ` set zs" by (simp add: cs_def se0)
  also have "\<dots> = set offsets_list" by (simp add: zs offsets_list_def)
  finally have st: "set (map fst cs) = set offsets_list" .
  have "length (map fst cs) = 4" by (simp add: cs_def le0) (simp add: zs)
  moreover have "card (set offsets_list) = 4" by (simp add: offsets_list_def)
  ultimately have di: "distinct (map fst cs)"
    using st by (simp add: card_distinct)
  have rel: "tracking_le pp position (fst x) (fst y)"
    if "x \<in> set zs" "y \<in> set zs" "key_le y x" for x y
  proof -
    have x: "x \<in> {((0, 1), D (0, 1), CHR ''S''), ((0, -1), D (0, -1), CHR ''N''),
                   ((1, 0), D (1, 0), CHR ''E''), ((-1, 0), D (-1, 0), CHR ''W'')}"
      and y: "y \<in> {((0, 1), D (0, 1), CHR ''S''), ((0, -1), D (0, -1), CHR ''N''),
                   ((1, 0), D (1, 0), CHR ''E''), ((-1, 0), D (-1, 0), CHR ''W'')}"
      using that(1,2) unfolding zs by simp_all
    have D: "Position_distance pp (Position_add position offset) = D offset" for offset
      by (simp add: D_def Position_add_commute)
    show ?thesis using x y that(3)
      unfolding key_le_def tracking_le_def compass_rank_def D
      by (elim insertE emptyE) auto
  qed
  have "sorted_wrt (\<lambda>a b. key_le b a) cs"
    using so0 by (simp add: cs_def sorted_wrt_rev)
  moreover have "set cs = set zs" by (simp add: cs_def se0)
  ultimately have "sorted_wrt (\<lambda>a b. tracking_le pp position (fst a) (fst b)) cs"
    using rel by (auto intro: sorted_wrt_mono_rel[rotated])
  then have so: "sorted_wrt (tracking_le pp position) (map fst cs)"
    by (simp add: sorted_wrt_map)
  show ?thesis using di st so by (simp add: cl)
qed


lemma wander_spec_moves:
  assumes ok: "dict_ok (grid g)" and co: "consistent (grid g)"
    and at: "get_entity (grid g) position = Some z"
    and f: "find (decisive g position) dirs = Some d"
    and emp: "get_entity (grid g) (Position_add position d) = None"
  shows "\<exists>gr. wander_spec dirs position g = Inr (g\<lparr>grid := gr\<rparr>) \<and>
           get_entity gr (Position_add position d) = Some z \<and>
           get_entity gr position = None"
proof -
  let ?dest = "Position_add position d"
  have "decisive g position d" using f by (auto simp: find_Some_iff)
  then have ib: "in_bounds (grid g) ?dest" by (simp add: decisive_def)
  have ne: "?dest \<noteq> position" using emp at by auto
  from move_entity_lookup[OF ok co get_entity_in_bounds[OF at] ib at]
  obtain gr where gr: "move_entity (grid g) position ?dest = Inr gr"
    "\<And>q. get_entity gr q =
           (if q = ?dest then Some z else if q = position then None else get_entity (grid g) q)"
    by blast
  have "wander_spec dirs position g = Inr (g\<lparr>grid := gr\<rparr>)"
    using f emp gr(1) by (simp add: wander_spec_def)
  moreover have "get_entity gr ?dest = Some z" "get_entity gr position = None"
    using ne by (simp_all add: gr(2))
  ultimately show ?thesis by blast
qed

lemma compressed_list_example:
  "map fst (compressed_list (2, 4) (1, 1)) = [(0, 1), (1, 0), (-1, 0), (0, -1)]"
  by (simp add: compressed_list_def offsets_list_def directions_list_def sorted_compressed_def
        key_le_def Position_distance_def Position_add_def)

text \<open>
  Claim C2. With a player in the grid, the step of a tracking zombie is the spec's walk
  \<open>wander_spec\<close> over its candidate list. That list holds each of the four unit
  offsets once and is ordered by \<open>tracking_le\<close>: ascending Manhattan distance from the
  destination to the player, ties by the priority West, South, North, East. For the
  zombie at (1,1), the player at (2,4) and the four neighbours in bounds and empty, the
  zombie ends at (1,2) and (1,1) is empty.
\<close>

theorem TrackingZombie_step_order:
  assumes "find_player (grid g) = Some player_position"
  shows "TrackingZombie_step position g
           = wander_spec (map fst (compressed_list player_position position)) position g \<and>
         distinct (map fst (compressed_list player_position position)) \<and>
         set (map fst (compressed_list player_position position)) = set offsets_list \<and>
         sorted_wrt (tracking_le player_position position)
           (map fst (compressed_list player_position position)) \<and>
         (position = (1, 1) \<and> player_position = (2, 4) \<and>
          dict_ok (grid g) \<and> consistent (grid g) \<and> get_entity (grid g) (1, 1) = Some z \<and>
          (\<forall>d \<in> set offsets_list.
             in_bounds (grid g) (Position_add (1, 1) d) \<and>
             get_entity (grid g) (Position_add (1, 1) d) = None) \<longrightarrow>
          (\<exists>gr. TrackingZombie_step position g = Inr (g\<lparr>grid := gr\<rparr>) \<and>
                get_entity gr (1, 2) = Some z \<and> get_entity gr (1, 1) = None))"
proof -
  have eq: "TrackingZombie_step position g
           = wander_spec (map fst (compressed_list player_position position)) position g"
    using assms by (simp add: TrackingZombie_step_def Zombie_step_loop_spec)
  have ex: "\<exists>gr. TrackingZombie_step position g = Inr (g\<lparr>grid := gr\<rparr>) \<and>
                get_entity gr (1, 2) = Some z \<and> get_entity gr (1, 1) = None"
    if p: "position = (1, 1)" "player_position = (2, 4)"
      and ok: "dict_ok (grid g)" and co: "consistent (grid g)"
      and at: "get_entity (grid g) (1, 1) = Some z"
      and free: "\<forall>d \<in> set offsets_list.
             in_bounds (grid g) (Position_add (1, 1) d) \<and>
             get_entity (grid g) (Position_add (1, 1) d) = None"
  proof -
    have s: "in_bounds (grid g) (Position_add (1, 1) (0, 1))"
      "get_entity (grid g) (Position_add (1, 1) (0, 1)) = None"
      using free by (simp_all add: offsets_list_def)
    then have f: "find (decisive g (1, 1)) [(0, 1), (1, 0), (-1, 0), (0, -1)] = Some (0, 1)"
      by (simp add: decisive_def)
    have pa: "Position_add (1, 1) (0, 1) = (1, 2)" by (simp add: Position_add_def)
    have "TrackingZombie_step position g
            = wander_spec [(0, 1), (1, 0), (-1, 0), (0, -1)] (1, 1) g"
      using eq p compressed_list_example by simp
    then show ?thesis using wander_spec_moves[OF ok co at f s(2)] pa by simp
  qed
  show ?thesis using eq compressed_list_props[of player_position position] ex by blast
qed

theorem TrackingZombie_step_order_witness:
  "find_player (grid game_track) = Some (2, 4) \<and>
   dict_ok (grid game_track) \<and> consistent (grid game_track) \<and>
   get_entity (grid game_track) (1, 1) = Some tracker4 \<and>
   list_all (\<lambda>d. in_bounds (grid game_track) (Position_add (1, 1) d) \<and>
               get_entity (grid game_track) (Position_add (1, 1) d) = None) offsets_list \<and>
   map fst (compressed_list (2, 4) (1, 1)) = [(0, 1), (1, 0), (-1, 0), (0, -1)] \<and>
   (\<exists>gr. TrackingZombie_step (1, 1) game_track = Inr (game_track\<lparr>grid := gr\<rparr>) \<and>
         get_entity gr (1, 2) = Some tracker4 \<and> get_entity gr (1, 1) = None)"
proof -
  have fp: "find_player (grid game_track) = Some (2, 4)"
    and h: "dict_ok (grid game_track)" "consistent (grid game_track)"
      "get_entity (grid game_track) (1, 1) = Some tracker4"
    and free: "list_all (\<lambda>d. in_bounds (grid game_track) (Position_add (1, 1) d) \<and>
               get_entity (grid game_track) (Position_add (1, 1) d) = None) offsets_list"
    by (simp_all add: game_track_def grid_track_def dict_ok_def consistent_def
          get_entity_def in_bounds_def find_player_def offsets_list_def Position_add_def
          example_defs)
  from free have free': "\<forall>d \<in> set offsets_list.
             in_bounds (grid game_track) (Position_add (1, 1) d) \<and>
             get_entity (grid game_track) (Position_add (1, 1) d) = None"
    by (simp add: list_all_iff)
  have "\<exists>gr. TrackingZombie_step (1, 1) game_track = Inr (game_track\<lparr>grid := gr\<rparr>) \<and>
         get_entity gr (1, 2) = Some tracker4 \<and> get_entity gr (1, 1) = None"
    using TrackingZombie_step_order[OF fp, of "(1, 1)" tracker4] h free' by blast
  then show ?thesis using fp h free compressed_list_example by blast
qed

section \<open>The frame of a zombie step\<close>



section \<open>Steps of well-formed games\<close>

lemma Inventory_step_loop_total:
  "list_all isinstance_Pickup items \<Longrightarrow>
     \<exists>items' rs'. Inventory_step_loop i items rs = Inr (items', rs') \<and> set items' \<subseteq> set items"
proof (induction i items rs rule: Inventory_step_loop.induct)
  case (1 i items rs)
  note unfold = Inventory_step_loop.simps[of i items rs]
  show ?case
  proof (cases "i < length items")
    case False
    then show ?thesis by (simp add: unfold)
  next
    case True
    then have pk: "isinstance_Pickup (items ! i)"
      using "1.prems" by (simp add: list_all_length)
    show ?thesis
    proof (cases "rs (items ! i) - 1 \<le> 0")
      case expired: True
      have "list_all isinstance_Pickup (remove1 (items ! i) items)"
        using "1.prems" by (auto simp: list_all_iff dest: notin_set_remove1)
      with "1.IH"(1) True pk expired
      obtain items' rs' where
        "Inventory_step_loop (Suc i) (remove1 (items ! i) items)
           (rs((items ! i) := rs (items ! i) - 1)) = Inr (items', rs')"
        "set items' \<subseteq> set (remove1 (items ! i) items)"
        by blast
      moreover have "set (remove1 (items ! i) items) \<subseteq> set items"
        by (rule set_remove1_subset)
      ultimately show ?thesis using True pk expired by (auto simp: unfold)
    next
      case alive: False
      with "1.IH"(2) True pk "1.prems"
      obtain items' rs' where
        "Inventory_step_loop (Suc i) items (rs((items ! i) := rs (items ! i) - 1)) = Inr (items', rs')"
        "set items' \<subseteq> set items"
        by blast
      then show ?thesis using True pk alive by (auto simp: unfold)
    qed
  qed
qed

lemma Inventory_step_ok:
  assumes "game_ok g"
  shows "\<exists>g'. Inventory_step owner g = Inr g' \<and> game_ok g' \<and> no_steps g' = no_steps g"
proof -
  have inv: "\<And>e. list_all isinstance_Pickup (inventory g e)"
    using assms by (simp add: game_ok_def inventories_ok_def)
  from Inventory_step_loop_total[OF inv[of owner], of 0 "remaining_steps g"]
  obtain items' rs' where r: "Inventory_step_loop 0 (inventory g owner) (remaining_steps g) = Inr (items', rs')"
    and sub: "set items' \<subseteq> set (inventory g owner)" by blast
  have "list_all isinstance_Pickup items'"
    using inv[of owner] sub by (auto simp: list_all_iff)
  then have "game_ok (g\<lparr>inventory := (inventory g)(owner := items'), remaining_steps := rs'\<rparr>)"
    using assms inv by (simp add: game_ok_def inventories_ok_def)
  then show ?thesis using r by (simp add: Inventory_step_def)
qed

lemma infect_cases:
  "infect e g = Inr g' \<Longrightarrow> g' = g \<or> g' = g\<lparr>infected := (infected g)(e := True)\<rparr>"
  by (auto simp: infect_def split: cls.splits if_splits)

lemma move_to_empty_entities:
  assumes ok: "dict_ok gr" and co: "consistent gr"
    and emp: "get_entity gr t = None" and ib: "in_bounds gr t"
    and mv: "move_entity gr s t = Inr gr'"
  shows "entities gr' = entities gr"
proof (cases "in_bounds gr s")
  case False
  then show ?thesis using mv by (simp add: move_entity_def)
next
  case True
  have mt: "map_of (EntityLocations gr) t = None"
    using emp ib by (simp add: get_entity_def)
  show ?thesis
  proof (cases "map_of (EntityLocations gr) s")
    case None
    then show ?thesis using mv True ib by (auto simp: move_entity_def)
  next
    case (Some x)
    from move_entity_eq[OF dict_ok_distinct[OF ok] consistent_sub[OF co] True ib Some]
    show ?thesis using mv mt by auto
  qed
qed

lemma values_same:
  assumes "consistent gr" "consistent gr'" "entities gr' = entities gr"
  shows "set (map snd (EntityLocations gr')) = set (map snd (EntityLocations gr))"
  using assms by (simp add: consistent_def)

lemma players_infectable_values:
  "players_infectable gr \<longleftrightarrow> (\<forall>e \<in> set (map snd (EntityLocations gr)). isinstance_Player e \<longrightarrow> cls_of e \<noteq> Player)"
  by (auto simp: players_infectable_def list_all_iff)

lemma find_player_values:
  "find_player gr \<noteq> None \<longleftrightarrow> (\<exists>e \<in> set (map snd (EntityLocations gr)). isinstance_Player e)"
  using find_player_None[of gr] by auto

lemma wander_spec_ok:
  assumes gk: "game_ok g" and res: "wander_spec dirs position g = Inr g'"
  shows "game_ok g' \<and> no_steps g' = no_steps g"
proof (cases "find (decisive g position) dirs")
  case None
  then show ?thesis using res gk by (simp add: wander_spec_def)
next
  case (Some d)
  then have dec: "decisive g position d" by (auto simp: find_Some_iff)
  let ?dest = "Position_add position d"
  have ok: "dict_ok (grid g)" and co: "consistent (grid g)"
    using gk by (simp_all add: game_ok_def)
  show ?thesis
  proof (cases "get_entity (grid g) ?dest")
    case none: None
    from move_entity_inv[OF ok co, of position ?dest] obtain gr where
      gr: "move_entity (grid g) position ?dest = Inr gr" "dict_ok gr" "consistent gr" by blast
    have ib: "in_bounds (grid g) ?dest" using dec by (simp add: decisive_def)
    have es: "entities gr = entities (grid g)"
      by (rule move_to_empty_entities[OF ok co none ib gr(1)])
    have vs: "set (map snd (EntityLocations gr)) = set (map snd (EntityLocations (grid g)))"
      by (rule values_same[OF co gr(3) es])
    have g': "g' = g\<lparr>grid := gr\<rparr>"
      using res Some none gr(1) by (simp add: wander_spec_def)
    have "players_infectable gr" "find_player gr \<noteq> None"
      using gk vs unfolding game_ok_def players_infectable_values find_player_values by simp_all
    then show ?thesis using gk gr(2,3) g' by (simp add: game_ok_def inventories_ok_def)
  next
    case (Some e)
    then obtain pl where "infect pl g = Inr g'"
      using res \<open>find (decisive g position) dirs = Some d\<close>
      by (auto simp: wander_spec_def split: option.splits)
    from infect_cases[OF this] show ?thesis
      using gk by (auto simp: game_ok_def inventories_ok_def)
  qed
qed

lemma entity_step_ok:
  assumes gk: "game_ok g"
  shows "\<exists>g'. entity_step e position g = Inr g' \<and> game_ok g' \<and> no_steps g' = no_steps g"
proof -
  have ok: "dict_ok (grid g)" and co: "consistent (grid g)"
    and inf: "players_infectable (grid g)" and fp: "find_player (grid g) \<noteq> None"
    using gk by (simp_all add: game_ok_def)
  show ?thesis
  proof (cases "cls_of e")
    case HoldingPlayer
    then show ?thesis using Inventory_step_ok[OF gk] by (simp add: entity_step_def)
  next
    case Zombie
    let ?g1 = "g\<lparr>random_source := (\<lambda>n. random_source g (Suc n))\<rparr>"
    have gk1: "game_ok ?g1" using gk by (simp add: game_ok_def inventories_ok_def)
    then have "dict_ok (grid ?g1)" "consistent (grid ?g1)" "players_infectable (grid ?g1)"
      by (simp_all add: game_ok_def)
    from wander_spec_total[OF this, of "random_source g 0" position]
    obtain g' where r: "wander_spec (random_source g 0) position ?g1 = Inr g'" by blast
    from wander_spec_ok[OF gk1 r] have "game_ok g' \<and> no_steps g' = no_steps g" by simp
    then show ?thesis using r Zombie
      by (simp add: entity_step_def Zombie_step_def Zombie_step_loop_spec)
  next
    case TrackingZombie
    from fp obtain pp where pp: "find_player (grid g) = Some pp" by blast
    from wander_spec_total[OF ok co inf, of "map fst (compressed_list pp position)" position]
    obtain g' where r: "wander_spec (map fst (compressed_list pp position)) position g = Inr g'"
      by blast
    from wander_spec_ok[OF gk r] show ?thesis using r TrackingZombie pp
      by (simp add: entity_step_def TrackingZombie_step_def Zombie_step_loop_spec)
  qed (use gk in \<open>simp_all add: entity_step_def\<close>)
qed

section \<open>Game.step\<close>

lemma wander_spec_no_steps:
  "wander_spec dirs position g = Inr g' \<Longrightarrow> no_steps g' = no_steps g"
  by (auto simp: wander_spec_def split: option.splits sum.splits dest!: infect_cases)

lemma entity_step_no_steps:
  assumes "entity_step e position g = Inr g'"
  shows "no_steps g' = no_steps g"
proof (cases "cls_of e")
  case HoldingPlayer
  then show ?thesis using assms
    by (auto simp: entity_step_def Inventory_step_def split: sum.splits prod.splits)
next
  case Zombie
  then show ?thesis using assms
    by (auto simp: entity_step_def Zombie_step_def Zombie_step_loop_spec
             dest!: wander_spec_no_steps)
next
  case TrackingZombie
  then show ?thesis using assms
    by (auto simp: entity_step_def TrackingZombie_step_def Zombie_step_loop_spec
             split: option.splits dest!: wander_spec_no_steps)
qed (use assms in \<open>simp_all add: entity_step_def\<close>)

lemma Game_step_loop_prefix:
  "\<exists>rest. snapshot = fst (Game_step_loop snapshot g) @ rest"
  by (induction snapshot arbitrary: g) (auto split: sum.splits)

lemma Game_step_loop_complete:
  "snd (Game_step_loop snapshot g) = Inr g' \<Longrightarrow>
     fst (Game_step_loop snapshot g) = snapshot \<and> no_steps g' = no_steps g"
proof (induction snapshot arbitrary: g)
  case Nil
  then show ?case by simp
next
  case (Cons kv rest)
  then obtain g1 where s: "entity_step (snd kv) (fst kv) g = Inr g1"
    and r: "snd (Game_step_loop rest g1) = Inr g'"
    by (auto split: sum.splits)
  from Cons.IH[OF r] entity_step_no_steps[OF s] s show ?case by simp
qed

lemma Game_step_loop_ok:
  "game_ok g \<Longrightarrow> \<exists>g'. Game_step_loop snapshot g = (snapshot, Inr g') \<and> game_ok g'"
proof (induction snapshot arbitrary: g)
  case Nil
  then show ?case by simp
next
  case (Cons kv rest)
  from entity_step_ok[OF Cons.prems, of "snd kv" "fst kv"] obtain g1 where
    s: "entity_step (snd kv) (fst kv) g = Inr g1" and k: "game_ok g1" by blast
  from Cons.IH[OF k] obtain g' where "Game_step_loop rest g1 = (rest, Inr g')" "game_ok g'"
    by blast
  then show ?case using s by simp
qed

lemma invoke_next_simps:
  "invoke_next (Inl err) kv = Inl err"
  "invoke_next (Inr s) kv = entity_step (snd kv) (fst kv) s"
  by (simp_all add: invoke_next_def)

lemma foldl_invoke_next_Inl: "foldl invoke_next (Inl err) snapshot = Inl err"
  by (induction snapshot) (simp_all add: invoke_next_simps)

lemma Game_step_loop_fold:
  "snd (Game_step_loop snapshot g) = foldl invoke_next (Inr g) snapshot"
proof (induction snapshot arbitrary: g)
  case Nil
  then show ?case by simp
next
  case (Cons kv rest)
  show ?case
  proof (cases "entity_step (snd kv) (fst kv) g")
    case (Inl err)
    then show ?thesis by (simp add: invoke_next_simps foldl_invoke_next_Inl)
  next
    case (Inr g1)
    then show ?thesis using Cons.IH[of g1] by (simp add: invoke_next_simps)
  qed
qed

lemma Game_step_loop_calls_length:
  "i < length (fst (Game_step_loop snapshot g)) \<longleftrightarrow>
     i < length snapshot \<and> (\<exists>s. foldl invoke_next (Inr g) (take i snapshot) = Inr s)"
proof (induction snapshot arbitrary: g i)
  case Nil
  then show ?case by simp
next
  case (Cons kv rest)
  show ?case
  proof (cases i)
    case 0
    then show ?thesis by (simp split: sum.splits)
  next
    case (Suc j)
    show ?thesis
    proof (cases "entity_step (snd kv) (fst kv) g")
      case (Inl err)
      then show ?thesis using Suc by (simp add: invoke_next_simps foldl_invoke_next_Inl)
    next
      case (Inr g1)
      then show ?thesis using Suc Cons.IH[of j g1] by (simp add: invoke_next_simps)
    qed
  qed
qed

text \<open>
  Claim C3. \<open>Game.step\<close> is the step counter raised by one followed by the per-turn
  behaviours \<open>entity_step\<close> of the entries of the snapshot \<open>get_mapping\<close>, taken from
  the grid before the turn, run one after the other in the order of the snapshot, each
  with the position that the snapshot records; an exception ends the turn. The calls
  made are an initial part of the snapshot: an entry is called exactly when the
  behaviours of all entries before it have returned. When the step returns, the calls
  are exactly the snapshot and the step counter has grown by one. From a well-formed
  game the step does return, to a well-formed game. In a well-formed grid the snapshot
  is the mapping itself, with every position once and every entity of the grid once;
  so every entity is stepped once, at its position of the start of the turn, and not
  again where an earlier step has moved it.
\<close>

theorem Game_step_visits_snapshot:
  "Game_step g =
     foldl (\<lambda>r kv. case r of Inl err \<Rightarrow> Inl err
                   | Inr s \<Rightarrow> entity_step (snd kv) (fst kv) s)
       (Inr (g\<lparr>no_steps := no_steps g + 1\<rparr>)) (get_mapping (grid g)) \<and>
   (\<forall>i. i < length (Game_step_calls g) \<longleftrightarrow>
      i < length (get_mapping (grid g)) \<and>
      (\<exists>s. foldl (\<lambda>r kv. case r of Inl err \<Rightarrow> Inl err
                       | Inr s \<Rightarrow> entity_step (snd kv) (fst kv) s)
              (Inr (g\<lparr>no_steps := no_steps g + 1\<rparr>)) (take i (get_mapping (grid g)))
            = Inr s)) \<and>
   (\<exists>rest. get_mapping (grid g) = Game_step_calls g @ rest) \<and>
   (\<forall>g'. Game_step g = Inr g' \<longrightarrow>
      Game_step_calls g = get_mapping (grid g) \<and> no_steps g' = no_steps g + 1) \<and>
   (game_ok g \<longrightarrow> (\<exists>g'. Game_step g = Inr g' \<and> game_ok g')) \<and>
   (dict_ok (grid g) \<and> consistent (grid g) \<longrightarrow>
      get_mapping (grid g) = EntityLocations (grid g) \<and>
      distinct (map fst (get_mapping (grid g))) \<and>
      distinct (map snd (get_mapping (grid g))) \<and>
      set (map snd (get_mapping (grid g))) = set (entities (grid g)))"
proof -
  let ?g1 = "g\<lparr>no_steps := no_steps g + 1\<rparr>"
  have inv: "(\<lambda>r kv. case r of Inl err \<Rightarrow> Inl err
                   | Inr s \<Rightarrow> entity_step (snd kv) (fst kv) s) = invoke_next"
    by (intro ext) (simp add: invoke_next_def)
  have e: "Game_step g = foldl invoke_next (Inr ?g1) (get_mapping (grid g))"
    by (simp add: Game_step_def Game_step_loop_fold)
  have f: "i < length (Game_step_calls g) \<longleftrightarrow>
      i < length (get_mapping (grid g)) \<and>
      (\<exists>s. foldl invoke_next (Inr ?g1) (take i (get_mapping (grid g))) = Inr s)" for i
    using Game_step_loop_calls_length[of i "get_mapping (grid g)" ?g1]
    by (simp add: Game_step_calls_def)
  have a: "\<exists>rest. get_mapping (grid g) = Game_step_calls g @ rest"
    using Game_step_loop_prefix[of "get_mapping (grid g)" ?g1]
    by (simp add: Game_step_calls_def)
  have b: "Game_step_calls g = get_mapping (grid g) \<and> no_steps g' = no_steps g + 1"
    if "Game_step g = Inr g'" for g'
    using Game_step_loop_complete[of "get_mapping (grid g)" ?g1 g'] that
    by (simp add: Game_step_def Game_step_calls_def)
  have c: "\<exists>g'. Game_step g = Inr g' \<and> game_ok g'" if "game_ok g"
  proof -
    have "game_ok ?g1" using that by (simp add: game_ok_def inventories_ok_def)
    from Game_step_loop_ok[OF this, of "get_mapping (grid g)"]
    show ?thesis by (auto simp: Game_step_def)
  qed
  have d: "get_mapping (grid g) = EntityLocations (grid g) \<and>
      distinct (map fst (get_mapping (grid g))) \<and>
      distinct (map snd (get_mapping (grid g))) \<and>
      set (map snd (get_mapping (grid g))) = set (entities (grid g))"
    if "dict_ok (grid g)" "consistent (grid g)"
    using that get_mapping_id[of "grid g"] by (simp add: dict_ok_def consistent_def)
  show ?thesis unfolding inv using e f a b c d by blast
qed

theorem Game_step_visits_snapshot_witness:
  "game_ok game_pz \<and>
   get_mapping (grid game_pz) = [((0, 0), holder), ((1, 0), zombie3)] \<and>
   Game_step_calls game_pz = [((0, 0), holder), ((1, 0), zombie3)] \<and>
   remaining_steps game_pz crossbow2 = 5 \<and>
   (\<exists>g'. Game_step game_pz = Inr g' \<and> no_steps g' = no_steps game_pz + 1 \<and>
      get_entity (grid g') (0, 0) = Some holder \<and>
      get_entity (grid g') (1, 0) = None \<and>
      get_entity (grid g') (1, 1) = Some zombie3 \<and>
      entities (grid g') = [holder, zombie3] \<and>
      inventory g' holder = [crossbow2] \<and>
      remaining_steps g' crossbow2 = 4)"
proof -
  have k: "game_ok game_pz"
    by (simp add: game_ok_def inventories_ok_def game_pz_def game_no_garlic_def
          game_garlic_def grid_pz_def dict_ok_def consistent_def in_bounds_def
          players_infectable_def find_player_def example_defs)
  have m: "get_mapping (grid game_pz) = [((0, 0), holder), ((1, 0), zombie3)]"
    by (simp add: get_mapping_def game_pz_def grid_pz_def)
  have r: "remaining_steps game_pz crossbow2 = 5"
    by (simp add: game_pz_def game_no_garlic_def game_garlic_def example_defs)
  note t = Game_step_visits_snapshot[of game_pz]
  from t k obtain g' where s: "Game_step game_pz = Inr g'" by blast
  with t have c: "Game_step_calls game_pz = get_mapping (grid game_pz)"
    "no_steps g' = no_steps game_pz + 1" by blast+
  from t have "Game_step game_pz =
     foldl (\<lambda>r kv. case r of Inl err \<Rightarrow> Inl err
                   | Inr s \<Rightarrow> entity_step (snd kv) (fst kv) s)
       (Inr (game_pz\<lparr>no_steps := no_steps game_pz + 1\<rparr>)) (get_mapping (grid game_pz))"
    by blast
  then have fold: "foldl (\<lambda>r kv. case r of Inl err \<Rightarrow> Inl err
                   | Inr s \<Rightarrow> entity_step (snd kv) (fst kv) s)
       (Inr (game_pz\<lparr>no_steps := no_steps game_pz + 1\<rparr>))
       [((0, 0), holder), ((1, 0), zombie3)] = Inr g'"
    using s m by simp
  have "case foldl (\<lambda>r kv. case r of Inl err \<Rightarrow> Inl err
                   | Inr s \<Rightarrow> entity_step (snd kv) (fst kv) s)
       (Inr (game_pz\<lparr>no_steps := no_steps game_pz + 1\<rparr>))
       [((0, 0), holder), ((1, 0), zombie3)] of
          Inl err \<Rightarrow> False
        | Inr s \<Rightarrow>
            get_entity (grid s) (0, 0) = Some holder \<and>
            get_entity (grid s) (1, 0) = None \<and>
            get_entity (grid s) (1, 1) = Some zombie3 \<and>
            entities (grid s) = [holder, zombie3] \<and>
            inventory s holder = [crossbow2] \<and>
            remaining_steps s crossbow2 = 4"
    by (simp add: entity_step_def Inventory_step_def Inventory_step_loop.simps
          Zombie_step_def offsets_list_def Position_add_def in_bounds_def get_entity_def
          move_entity_def remove_entity_def
          game_pz_def game_no_garlic_def game_garlic_def grid_pz_def example_defs)
  then have post: "get_entity (grid g') (0, 0) = Some holder"
      "get_entity (grid g') (1, 0) = None"
      "get_entity (grid g') (1, 1) = Some zombie3"
      "entities (grid g') = [holder, zombie3]"
      "inventory g' holder = [crossbow2]"
      "remaining_steps g' crossbow2 = 4"
    unfolding fold by simp_all
  show ?thesis using k m r s c post by auto
qed

section \<open>The fire action\<close>

lemma zombie_kinds: "(isinstance_Zombie e \<or> isinstance_TrackingZombie e) = isinstance_Zombie e"
  by (cases e) auto

lemma tracking_is_zombie: "\<not> isinstance_Zombie e \<Longrightarrow> \<not> isinstance_TrackingZombie e"
  by (cases e) auto

lemma fire_loop_hit:
  assumes off: "direction_to_offset d = Some off"
    and z: "isinstance_Zombie z"
  shows "first_hit gr p off n z \<Longrightarrow>
           fire_loop gr d p =
             (case remove_entity gr (cell p off (Suc n)) of
                Inl err \<Rightarrow> Inl err
              | Inr gr' \<Rightarrow> Inr (gr', []))"
proof (induction n arbitrary: p)
  case 0
  then show ?case using off z
    by (simp add: first_hit_def fire_loop.simps[of gr d p] zombie_kinds)
next
  case (Suc n)
  let ?p' = "Position_add p off"
  from Suc.prems have step: "in_bounds gr ?p'" "get_entity gr ?p' = None"
    and rest: "first_hit gr ?p' off n z"
    by (simp_all add: first_hit_def)
  have "fire_loop gr d p = fire_loop gr d ?p'"
    using off step by (simp add: fire_loop.simps[of gr d p])
  then show ?case using Suc.IH[OF rest] by simp
qed

lemma fire_loop_miss:
  "direction_to_offset d = Some off \<Longrightarrow>
     fire_loop gr d p = Inr (gr, [NO_ZOMBIE_MESSAGE]) \<or>
     (\<exists>n z. first_hit gr p off n z \<and> isinstance_Zombie z)"
proof (induction gr d p rule: fire_loop.induct)
  case (1 gr d p)
  let ?p' = "Position_add p off"
  note off = "1.prems"
  show ?case
  proof (cases "in_bounds gr ?p'")
    case False
    then show ?thesis using off by (simp add: fire_loop.simps[of gr d p])
  next
    case True
    show ?thesis
    proof (cases "get_entity gr ?p'")
      case None
      have same: "fire_loop gr d p = fire_loop gr d ?p'"
        using off True None by (simp add: fire_loop.simps[of gr d p])
      from "1.IH"[OF off _ None off] True
      consider "fire_loop gr d ?p' = Inr (gr, [NO_ZOMBIE_MESSAGE])"
        | n z where "first_hit gr ?p' off n z" "isinstance_Zombie z"
        by auto
      then show ?thesis
      proof cases
        case 1
        then show ?thesis using same by simp
      next
        case 2
        then have "first_hit gr p off (Suc n) z"
          using True None by (simp add: first_hit_def)
        then show ?thesis using 2(2) by blast
      qed
    next
      case (Some e)
      show ?thesis
      proof (cases "isinstance_Zombie e")
        case True
        have "first_hit gr p off 0 e"
          using \<open>in_bounds gr ?p'\<close> Some by (simp add: first_hit_def)
        then show ?thesis using True by blast
      next
        case False
        then show ?thesis using off \<open>in_bounds gr ?p'\<close> Some tracking_is_zombie[OF False]
          by (simp add: fire_loop.simps[of gr d p])
      qed
    qed
  qed
qed

lemma remove_entity_lookup:
  assumes ok: "dict_ok gr" and co: "consistent gr"
    and at: "get_entity gr p = Some z"
  shows "\<exists>gr'. remove_entity gr p = Inr gr' \<and> entities gr' = remove1 z (entities gr) \<and>
           z \<notin> set (entities gr') \<and> z \<notin> set (map snd (EntityLocations gr')) \<and>
           (\<forall>q. get_entity gr' q = (if q = p then None else get_entity gr q))"
proof -
  let ?gr' = "gr\<lparr>entities := remove1 z (entities gr),
                 EntityLocations := filter (\<lambda>kv. fst kv \<noteq> p) (EntityLocations gr)\<rparr>"
  have eq: "remove_entity gr p = Inr ?gr'"
    using remove_entity_eq[OF dict_ok_distinct[OF ok] consistent_sub[OF co], of p] at by simp
  from remove_entity_inv[OF ok co, of p] eq have co': "consistent ?gr'" by simp
  have "distinct (entities gr)" using co by (simp add: consistent_def)
  then have a: "z \<notin> set (entities ?gr')" by simp
  then have b: "z \<notin> set (map snd (EntityLocations ?gr'))"
    using co' by (simp add: consistent_def)
  have c: "get_entity ?gr' q = (if q = p then None else get_entity gr q)" for q
    by (simp add: get_entity_def map_of_filter_neq)
  show ?thesis using eq a b c by (intro exI[of _ ?gr']) simp
qed


lemma DIRECTIONS_offset:
  "d \<in> set DIRECTIONS \<Longrightarrow> \<exists>off. direction_to_offset d = Some off"
  by (auto simp: DIRECTIONS_def direction_to_offset_def)

text \<open>
  Claim C4. In a well-formed grid whose player is a \<open>HoldingPlayer\<close> standing at \<open>pp\<close>,
  the fire action never raises. Without a crossbow, and with a crossbow and an invalid
  direction, the game is returned unchanged with the matching message. With a crossbow
  and one of the four directions: if the first non-empty cell on the walk from \<open>pp\<close>
  along the offset, met before the walk leaves the grid, holds a zombie of either kind,
  that zombie is removed from the mapping and from the list of entities and every other
  cell is as before; in every other case the game is returned unchanged with the
  message that there is no zombie.
\<close>

theorem fire_resolution_outcome:
  assumes "dict_ok (grid g)" and "consistent (grid g)"
    and "find_player (grid g) = Some pp"
    and "get_player g = Some player" and "cls_of player = HoldingPlayer"
  shows "(\<not> contains (inventory g player) CROSSBOW \<longrightarrow>
            fire_resolution g d = Inr (g, [NO_WEAPON_MESSAGE])) \<and>
         (contains (inventory g player) CROSSBOW \<and> d \<notin> set DIRECTIONS \<longrightarrow>
            fire_resolution g d = Inr (g, [INVALID_FIRING_MESSAGE])) \<and>
         (contains (inventory g player) CROSSBOW \<and> d \<in> set DIRECTIONS \<longrightarrow>
            (\<exists>off. direction_to_offset d = Some off \<and>
               (\<forall>n z. first_hit (grid g) pp off n z \<and> isinstance_Zombie z \<longrightarrow>
                  (\<exists>gr. fire_resolution g d = Inr (g\<lparr>grid := gr\<rparr>, []) \<and>
                     remove_entity (grid g) (cell pp off (Suc n)) = Inr gr \<and>
                     entities gr = remove1 z (entities (grid g)) \<and>
                     z \<notin> set (entities gr) \<and> z \<notin> set (map snd (EntityLocations gr)) \<and>
                     (\<forall>q. get_entity gr q =
                            (if q = cell pp off (Suc n) then None else get_entity (grid g) q)))) \<and>
               (\<not> (\<exists>n z. first_hit (grid g) pp off n z \<and> isinstance_Zombie z) \<longrightarrow>
                  fire_resolution g d = Inr (g, [NO_ZOMBIE_MESSAGE]))))"
proof -
  note ok = assms(1) and co = assms(2) and fp = assms(3) and gp = assms(4) and hp = assms(5)
  have a: "fire_resolution g d = Inr (g, [NO_WEAPON_MESSAGE])"
    if "\<not> contains (inventory g player) CROSSBOW"
    using that gp hp by (simp add: fire_resolution_def)
  have b: "fire_resolution g d = Inr (g, [INVALID_FIRING_MESSAGE])"
    if "contains (inventory g player) CROSSBOW" "d \<notin> set DIRECTIONS"
    using that gp hp by (simp add: fire_resolution_def)
  have c: "\<exists>off. direction_to_offset d = Some off \<and>
               (\<forall>n z. first_hit (grid g) pp off n z \<and> isinstance_Zombie z \<longrightarrow>
                  (\<exists>gr. fire_resolution g d = Inr (g\<lparr>grid := gr\<rparr>, []) \<and>
                     remove_entity (grid g) (cell pp off (Suc n)) = Inr gr \<and>
                     entities gr = remove1 z (entities (grid g)) \<and>
                     z \<notin> set (entities gr) \<and> z \<notin> set (map snd (EntityLocations gr)) \<and>
                     (\<forall>q. get_entity gr q =
                            (if q = cell pp off (Suc n) then None else get_entity (grid g) q)))) \<and>
               (\<not> (\<exists>n z. first_hit (grid g) pp off n z \<and> isinstance_Zombie z) \<longrightarrow>
                  fire_resolution g d = Inr (g, [NO_ZOMBIE_MESSAGE]))"
    if cb: "contains (inventory g player) CROSSBOW" and dir: "d \<in> set DIRECTIONS"
  proof -
    from DIRECTIONS_offset[OF dir] obtain off where off: "direction_to_offset d = Some off"
      by blast
    have fr: "fire_resolution g d =
            (case fire_loop (grid g) d pp of
               Inl err \<Rightarrow> Inl err
             | Inr (gr, printed) \<Rightarrow> Inr (g\<lparr>grid := gr\<rparr>, printed))"
      using cb dir gp hp fp by (simp add: fire_resolution_def)
    have hit: "\<exists>gr. fire_resolution g d = Inr (g\<lparr>grid := gr\<rparr>, []) \<and>
                     remove_entity (grid g) (cell pp off (Suc n)) = Inr gr \<and>
                     entities gr = remove1 z (entities (grid g)) \<and>
                     z \<notin> set (entities gr) \<and> z \<notin> set (map snd (EntityLocations gr)) \<and>
                     (\<forall>q. get_entity gr q =
                            (if q = cell pp off (Suc n) then None else get_entity (grid g) q))"
      if h: "first_hit (grid g) pp off n z" and z: "isinstance_Zombie z" for n z
    proof -
      have at: "get_entity (grid g) (cell pp off (Suc n)) = Some z"
        using h by (simp add: first_hit_def)
      from remove_entity_lookup[OF ok co at] obtain gr where
        gr: "remove_entity (grid g) (cell pp off (Suc n)) = Inr gr"
          "entities gr = remove1 z (entities (grid g))"
          "z \<notin> set (entities gr)" "z \<notin> set (map snd (EntityLocations gr))"
          "\<forall>q. get_entity gr q =
                 (if q = cell pp off (Suc n) then None else get_entity (grid g) q)"
        by blast
      have "fire_loop (grid g) d pp = Inr (gr, [])"
        using fire_loop_hit[OF off z h] gr(1) by simp
      then have "fire_resolution g d = Inr (g\<lparr>grid := gr\<rparr>, [])" by (simp add: fr)
      then show ?thesis using gr by blast
    qed
    have miss: "fire_resolution g d = Inr (g, [NO_ZOMBIE_MESSAGE])"
      if "\<not> (\<exists>n z. first_hit (grid g) pp off n z \<and> isinstance_Zombie z)"
      using fire_loop_miss[OF off, of "grid g" pp] that by (simp add: fr)
    show ?thesis using off hit miss by blast
  qed
  show ?thesis using a b c by blast
qed


theorem fire_resolution_outcome_witness:
  "dict_ok (grid game_fire) \<and> consistent (grid game_fire) \<and>
   find_player (grid game_fire) = Some (0, 0) \<and> get_player game_fire = Some holder \<and>
   cls_of holder = HoldingPlayer \<and> contains (inventory game_fire holder) CROSSBOW \<and>
   RIGHT \<in> set DIRECTIONS \<and> direction_to_offset RIGHT = Some (1, 0) \<and>
   first_hit (grid game_fire) (0, 0) (1, 0) (Suc (Suc 0)) zombie3 \<and> isinstance_Zombie zombie3 \<and>
   (\<exists>gr. fire_resolution game_fire RIGHT = Inr (game_fire\<lparr>grid := gr\<rparr>, []) \<and>
         entities gr = [holder, hospital5] \<and> get_entity gr (3, 0) = None \<and>
         get_entity gr (0, 2) = Some hospital5) \<and>
   fire_resolution game_fire DOWN = Inr (game_fire, [NO_ZOMBIE_MESSAGE])"
proof -
  note defs = game_fire_def game_garlic_def grid_fire_def dict_ok_def consistent_def
    get_entity_def in_bounds_def find_player_def get_player_def example_defs
    CROSSBOW_def GARLIC_def DIRECTIONS_def direction_to_offset_def UP_def DOWN_def LEFT_def
    RIGHT_def first_hit_def Position_add_def
  have h: "dict_ok (grid game_fire)" "consistent (grid game_fire)"
    "find_player (grid game_fire) = Some (0, 0)" "get_player game_fire = Some holder"
    "cls_of holder = HoldingPlayer"
    by (simp_all add: defs)
  have c: "contains (inventory game_fire holder) CROSSBOW" "RIGHT \<in> set DIRECTIONS"
    and o: "direction_to_offset RIGHT = Some (1, 0)"
    and f: "first_hit (grid game_fire) (0, 0) (1, 0) (Suc (Suc 0)) zombie3"
    and z: "isinstance_Zombie zombie3"
    and ce: "cell (0, 0) (1, 0) (Suc (Suc (Suc 0))) = (3, 0)"
    and r: "remove1 zombie3 (entities (grid game_fire)) = [holder, hospital5]"
    and hs: "get_entity (grid game_fire) (0, 2) = Some hospital5"
    by (simp_all add: defs)
  from fire_resolution_outcome[OF h, of RIGHT] c
  obtain off where off: "direction_to_offset RIGHT = Some off"
    and allhit: "\<forall>n z. first_hit (grid game_fire) (0, 0) off n z \<and> isinstance_Zombie z \<longrightarrow>
                  (\<exists>gr. fire_resolution game_fire RIGHT = Inr (game_fire\<lparr>grid := gr\<rparr>, []) \<and>
                     remove_entity (grid game_fire) (cell (0, 0) off (Suc n)) = Inr gr \<and>
                     entities gr = remove1 z (entities (grid game_fire)) \<and>
                     z \<notin> set (entities gr) \<and> z \<notin> set (map snd (EntityLocations gr)) \<and>
                     (\<forall>q. get_entity gr q =
                            (if q = cell (0, 0) off (Suc n) then None
                             else get_entity (grid game_fire) q)))"
    by blast
  have "off = (1, 0)" using off o by simp
  with allhit f z
  obtain gr where "fire_resolution game_fire RIGHT = Inr (game_fire\<lparr>grid := gr\<rparr>, [])"
    "entities gr = remove1 zombie3 (entities (grid game_fire))"
    "\<forall>q. get_entity gr q =
           (if q = cell (0, 0) (1, 0) (Suc (Suc (Suc 0))) then None
            else get_entity (grid game_fire) q)"
    by blast
  then have hit: "\<exists>gr. fire_resolution game_fire RIGHT = Inr (game_fire\<lparr>grid := gr\<rparr>, []) \<and>
         entities gr = [holder, hospital5] \<and> get_entity gr (3, 0) = None \<and>
         get_entity gr (0, 2) = Some hospital5"
    unfolding ce r using hs by auto
  have miss: "fire_resolution game_fire DOWN = Inr (game_fire, [NO_ZOMBIE_MESSAGE])"
    by (simp add: fire_resolution_def fire_loop.simps defs)
  show ?thesis using h c o f z hit miss by blast
qed

end
